theory Spec2Isabelle
  imports Main "HOL-Library.AList"
begin

section \<open>Python strings\<close>

text \<open>
  A Python \<open>str\<close> is modelled as a \<open>string\<close>, the list of its characters. A character
  is one of the 256 values of \<open>char\<close>, read as the code point of that number, so the
  model covers report text whose code points lie below 256. The character classes
  below are the ones Python 3 uses on that range.
\<close>

definition ord :: "char \<Rightarrow> nat" where
  "ord c = of_char c"

text \<open>\<open>str.isspace\<close>, which is also the class \<open>\s\<close> of \<open>re\<close> and what \<open>strip\<close> removes.\<close>

definition isspace :: "char \<Rightarrow> bool" where
  "isspace c = (let n = ord c in
     (9 \<le> n \<and> n \<le> 13) \<or> (28 \<le> n \<and> n \<le> 32) \<or> n = 133 \<or> n = 160)"

text \<open>The class \<open>\d\<close> of \<open>re\<close>.\<close>

definition isdigit :: "char \<Rightarrow> bool" where
  "isdigit c = (let n = ord c in 48 \<le> n \<and> n \<le> 57)"

text \<open>
  The class \<open>[a-zA-z]\<close> as the source writes it: the second range ends at the lower-case
  \<open>z\<close>, so it runs from code point 65 to 122 and takes in the six characters between
  \<open>Z\<close> and \<open>a\<close>.
\<close>

definition isletter_Az :: "char \<Rightarrow> bool" where
  "isletter_Az c = (let n = ord c in 65 \<le> n \<and> n \<le> 122)"

text \<open>The characters at which \<open>str.splitlines\<close> breaks a line.\<close>

definition islinebreak :: "char \<Rightarrow> bool" where
  "islinebreak c = (let n = ord c in (10 \<le> n \<and> n \<le> 13) \<or> (28 \<le> n \<and> n \<le> 30) \<or> n = 133)"

text \<open>
  \<open>str.splitlines()\<close>: a carriage return followed by a line feed is one break, the
  breaks are not kept, and a final break opens no further line.
\<close>

fun splitlines_from :: "string \<Rightarrow> string \<Rightarrow> string list" where
  "splitlines_from cur [] = (if cur = [] then [] else [rev cur])"
| "splitlines_from cur [c] =
     (if islinebreak c then [rev cur] else [rev (c # cur)])"
| "splitlines_from cur (c # d # cs) =
     (if ord c = 13 \<and> ord d = 10 then rev cur # splitlines_from [] cs
      else if islinebreak c then rev cur # splitlines_from [] (d # cs)
      else splitlines_from (c # cur) (d # cs))"

definition splitlines :: "string \<Rightarrow> string list" where
  "splitlines s = splitlines_from [] s"

definition lstrip :: "string \<Rightarrow> string" where
  "lstrip s = dropWhile isspace s"

definition rstrip :: "string \<Rightarrow> string" where
  "rstrip s = rev (dropWhile isspace (rev s))"

text \<open>
  \<open>str.upper()\<close> and \<open>str.lower()\<close>. Upper-casing the sharp s (223) gives two
  characters. The upper-case forms of 181 and 255 lie beyond code point 255; neither
  is an ASCII letter, and the program only asks whether \<open>VOTES\<close> occurs in the
  result, so the model leaves these two characters as they are.
\<close>

definition upper_char :: "char \<Rightarrow> string" where
  "upper_char c = (let n = ord c in
     if 97 \<le> n \<and> n \<le> 122 then [char_of (n - 32)]
     else if n = 223 then ''SS''
     else if 224 \<le> n \<and> n \<le> 254 \<and> n \<noteq> 247 then [char_of (n - 32)]
     else [c])"

definition upper :: "string \<Rightarrow> string" where
  "upper s = concat (map upper_char s)"

definition lower_char :: "char \<Rightarrow> char" where
  "lower_char c = (let n = ord c in
     if 65 \<le> n \<and> n \<le> 90 then char_of (n + 32)
     else if 192 \<le> n \<and> n \<le> 222 \<and> n \<noteq> 215 then char_of (n + 32)
     else c)"

definition lower :: "string \<Rightarrow> string" where
  "lower s = map lower_char s"

text \<open>The test \<open>sub in s\<close> on strings: \<open>sub\<close> occurs in \<open>s\<close> as a contiguous piece.\<close>

fun contains :: "string \<Rightarrow> string \<Rightarrow> bool" where
  "contains sub [] = (sub = [])"
| "contains sub (c # cs) = (take (length sub) (c # cs) = sub \<or> contains sub cs)"

text \<open>
  \<open>s.split(sep)\<close> for a separator that is not empty (the program's only separator is
  the three characters of \<open>" = "\<close>): the occurrences are taken from the left and do not
  overlap.
\<close>

function split_sep_from :: "string \<Rightarrow> string \<Rightarrow> string \<Rightarrow> string list" where
  "split_sep_from sep cur [] = [rev cur]"
| "split_sep_from sep cur (c # cs) =
     (if sep \<noteq> [] \<and> take (length sep) (c # cs) = sep
      then rev cur # split_sep_from sep [] (drop (length sep) (c # cs))
      else split_sep_from sep (c # cur) cs)"
  by pat_completeness auto
termination
  by (relation "measure (\<lambda>(sep, cur, s). length s)") auto

definition split_sep :: "string \<Rightarrow> string \<Rightarrow> string list" where
  "split_sep sep s = split_sep_from sep [] s"

text \<open>\<open>str(k)\<close> for an integer: the decimal digits, after a minus sign when negative.\<close>

function digits_of :: "nat \<Rightarrow> string" where
  "digits_of n = (if n < 10 then [char_of (48 + n)]
                  else digits_of (n div 10) @ [char_of (48 + n mod 10)])"
  by pat_completeness auto
termination
  by (relation "measure (\<lambda>n. n)") auto

definition str_int :: "int \<Rightarrow> string" where
  "str_int k = (if k < 0 then CHR ''-'' # digits_of (nat (- k)) else digits_of (nat k))"

text \<open>
  \<open>int(s)\<close> on a string, base ten: white space around the number is dropped (the
  characters 28 to 31 are not white space here), one sign may lead, and the digits may
  be grouped by single underscores. Anything else is a \<open>ValueError\<close>, the value
  \<open>None\<close> of the model. The limit some versions of Python put on the number of digits
  is not modelled.
\<close>

definition int_space :: "char \<Rightarrow> bool" where
  "int_space c = (let n = ord c in (9 \<le> n \<and> n \<le> 13) \<or> n = 32 \<or> n = 133 \<or> n = 160)"

fun digit_groups :: "nat \<Rightarrow> string \<Rightarrow> nat option" where
  "digit_groups acc [] = Some acc"
| "digit_groups acc [c] = (if isdigit c then Some (10 * acc + (ord c - 48)) else None)"
| "digit_groups acc (c # d # cs) =
     (if isdigit c then
        (if d = CHR ''_'' then
           (case cs of [] \<Rightarrow> None
            | e # es \<Rightarrow> if isdigit e then digit_groups (10 * acc + (ord c - 48)) cs else None)
         else digit_groups (10 * acc + (ord c - 48)) (d # cs))
      else None)"

definition py_int :: "string \<Rightarrow> int option" where
  "py_int s =
     (let t = rev (dropWhile int_space (rev (dropWhile int_space s)));
          neg = (t \<noteq> [] \<and> hd t = CHR ''-'');
          body = (if t \<noteq> [] \<and> (hd t = CHR ''-'' \<or> hd t = CHR ''+'') then tl t else t)
      in if body = [] then None
         else (case digit_groups 0 body of
                 None \<Rightarrow> None
               | Some n \<Rightarrow> Some (if neg then - int n else int n)))"

section \<open>Regular expressions\<close>

text \<open>
  A pattern is modelled by its matcher: given the rest of the text from some position,
  it returns the length of the match that \<open>re\<close> finds starting there, if there is one.
  Every pattern of the program matches at least two characters, and none looks at the
  text before the position it is tried at. \<open>re.split\<close> and \<open>re.findall\<close> try the
  pattern at each position from the left and continue after a match.
\<close>

type_synonym pattern = "string \<Rightarrow> nat option"

function re_split_from :: "pattern \<Rightarrow> string \<Rightarrow> string \<Rightarrow> string list" where
  "re_split_from p cur [] = [rev cur]"
| "re_split_from p cur (c # cs) =
     (case p (c # cs) of
        None \<Rightarrow> re_split_from p (c # cur) cs
      | Some n \<Rightarrow>
          if 0 < n then rev cur # re_split_from p [] (drop n (c # cs))
          else re_split_from p (c # cur) cs)"
  by pat_completeness auto
termination
  by (relation "measure (\<lambda>(p, cur, s). length s)") auto

definition re_split :: "pattern \<Rightarrow> string \<Rightarrow> string list" where
  "re_split p s = re_split_from p [] s"

function re_findall :: "pattern \<Rightarrow> string \<Rightarrow> string list" where
  "re_findall p [] = []"
| "re_findall p (c # cs) =
     (case p (c # cs) of
        None \<Rightarrow> re_findall p cs
      | Some n \<Rightarrow>
          if 0 < n then take n (c # cs) # re_findall p (drop n (c # cs))
          else re_findall p cs)"
  by pat_completeness auto
termination
  by (relation "measure (\<lambda>(p, s). length s)") auto

text \<open>\<open>={2,}\<close>: the whole run of equals signs at the position, when it has two or more.\<close>

definition rx_separator :: pattern where
  "rx_separator s = (let n = length (takeWhile (\<lambda>c. c = CHR ''='') s)
                     in if 2 \<le> n then Some n else None)"

text \<open>\<open>\s{2,}\<close>: the whole run of white space at the position, when it has two or more.\<close>

definition rx_spaces :: pattern where
  "rx_spaces s = (let n = length (takeWhile isspace s)
                  in if 2 \<le> n then Some n else None)"

text \<open>\<open>\d{4}\<close>: four digits.\<close>

definition rx_id :: pattern where
  "rx_id s = (if 4 \<le> length s \<and> list_all isdigit (take 4 s) then Some 4 else None)"

text \<open>\<open>\d{4}\s\<close>: four digits and one white-space character.\<close>

definition rx_id_space :: pattern where
  "rx_id_space s =
     (if 5 \<le> length s \<and> list_all isdigit (take 4 s) \<and> isspace (s ! 4) then Some 5 else None)"

text \<open>
  \<open>^\d{4}\s\d{0,4}\s?[a-zA-z]+\<close>, tried at the start of a line: four digits, one
  white-space character, up to four digits, at most one white-space character, and a
  run of one or more characters of the letter class. The three classes are disjoint,
  so taking fewer digits or giving the optional white space back never turns a failure
  into a match, and the longest choices decide.
\<close>

definition rx_precinct_row :: pattern where
  "rx_precinct_row s =
     (if 5 \<le> length s \<and> list_all isdigit (take 4 s) \<and> isspace (s ! 4) then
        (let r1 = drop 5 s;
             d = min 4 (length (takeWhile isdigit r1));
             r2 = drop d r1;
             w = (if r2 \<noteq> [] \<and> isspace (hd r2) then 1 else 0);
             r3 = drop w r2;
             l = length (takeWhile isletter_Az r3)
         in if 1 \<le> l then Some (5 + d + w + l) else None)
      else None)"

text \<open>
  \<open>(\d{2}\s=\s[a-zA-z/\s().'\-]+)\<close>: two digits, a white-space character, an equals
  sign, a white-space character, and the longest run of characters of the name class,
  which holds white space and so runs over line ends. The one group is the whole match,
  so \<open>re.findall\<close> returns the matched texts.
\<close>

definition isname :: "char \<Rightarrow> bool" where
  "isname c = (isletter_Az c \<or> isspace c \<or> c = CHR ''/'' \<or> c = CHR ''('' \<or> c = CHR '')''
                \<or> c = CHR ''.'' \<or> c = CHR 0x27 \<or> c = CHR ''-'')"

definition rx_candidate :: pattern where
  "rx_candidate s =
     (if 5 \<le> length s \<and> isdigit (s ! 0) \<and> isdigit (s ! 1) \<and> isspace (s ! 2)
         \<and> s ! 3 = CHR ''='' \<and> isspace (s ! 4) then
        (let l = length (takeWhile isname (drop 5 s))
         in if 1 \<le> l then Some (5 + l) else None)
      else None)"

section \<open>Reading and segmenting the report\<close>

text \<open>
  \<open>read_canvass_from_text\<close> reads the whole file and splits it. The model takes the text
  read from the file in place of the path.
\<close>

definition read_canvass_from_text :: "string \<Rightarrow> string list" where
  "read_canvass_from_text canvass =
     (let contests = re_split rx_separator canvass
      in if last contests = [] then butlast contests else contests)"

section \<open>Errors and values\<close>

text \<open>
  The exceptions the program can raise. A function that can raise returns a sum, with
  the exception on the left. A function that can run forever returns an option around
  that, \<open>None\<close> standing for a call that never returns.
\<close>

datatype error = IndexError | ValueError | KeyError int | TypeError | AssertionError

text \<open>\<open>xs[i]\<close> on a list: a negative index counts from the end.\<close>

definition item :: "'a list \<Rightarrow> int \<Rightarrow> error + 'a" where
  "item xs i =
     (if 0 \<le> i \<and> i < int (length xs) then Inr (xs ! nat i)
      else if i < 0 \<and> - int (length xs) \<le> i then Inr (xs ! nat (int (length xs) + i))
      else Inl IndexError)"

text \<open>
  A cell of a table row: the rows mix strings, integers and \<open>None\<close>.
\<close>

datatype cell = CStr string | CInt int | CNone

section \<open>The title of a contest\<close>

text \<open>
  The loop of \<open>grab_contest_title\<close> over the lines of the block, from line \<open>k\<close>. The
  loop tests \<open>k < 10000\<close> before it reads line \<open>k\<close>, and reads the two lines after
  the marker line without a test; each read beyond the last line raises \<open>IndexError\<close>.
\<close>

function title_loop :: "string list \<Rightarrow> nat \<Rightarrow> error + string option" where
  "title_loop contest k =
     (if k < 10000 then
        (if length contest \<le> k then Inl IndexError
         else if contains ''VOTES'' (upper (contest ! k)) then
           (if length contest \<le> k + 1 then Inl IndexError
            else if length contest \<le> k + 2 then Inl IndexError
            else if contains ''vote for not more'' (lower (contest ! (k + 2)))
            then Inr (Some (rstrip (contest ! (k + 1))))
            else Inr (Some (rstrip (contest ! (k + 1)) @ '' '' @
                            rstrip (lstrip (contest ! (k + 2))))))
         else title_loop contest (k + 1))
      else Inr None)"
  by pat_completeness auto
termination
  by (relation "measure (\<lambda>(contest, k). 10000 - k)") auto

definition grab_contest_title :: "string \<Rightarrow> error + string option" where
  "grab_contest_title contest = title_loop (splitlines contest) 0"

section \<open>The candidates of a contest\<close>

text \<open>
  The dictionary of candidates is an association list with one pair for each key, in
  the order the keys were first stored, as a Python \<open>dict\<close> keeps them; its \<open>len\<close> is
  the length of the list.
\<close>

type_synonym roster = "(int \<times> string) list"

fun candidates_loop :: "roster \<Rightarrow> string list \<Rightarrow> error + roster" where
  "candidates_loop candidates [] = Inr candidates"
| "candidates_loop candidates (candidate # rest) =
     (case split_sep '' = '' (rstrip candidate) of
        [] \<Rightarrow> Inl IndexError
      | first # more \<Rightarrow>
          (case py_int first of
             None \<Rightarrow> Inl ValueError
           | Some candidate_index \<Rightarrow>
               (case more of
                  [] \<Rightarrow> Inl IndexError
                | candidate_name # _ \<Rightarrow>
                    candidates_loop
                      (AList.update candidate_index candidate_name candidates) rest)))"

definition grab_candidates :: "string \<Rightarrow> error + roster" where
  "grab_candidates contest = candidates_loop [] (re_findall rx_candidate contest)"

section \<open>The precinct rows of a contest\<close>

text \<open>
  \<open>re.findall\<close> with a pattern that starts with \<open>^\<close>: the pattern can match at the
  start of the text only.
\<close>

definition re_findall_start :: "pattern \<Rightarrow> string \<Rightarrow> string list" where
  "re_findall_start p s = (case p s of None \<Rightarrow> [] | Some n \<Rightarrow> [take n s])"

text \<open>
  The loop of \<open>verify_precincts\<close>, from line \<open>k\<close>. It has no bound of its own: it
  reads line \<open>k\<close> first, which raises \<open>IndexError\<close> beyond the last line. When the
  line does not match and \<open>k\<close> has reached 10000, the source stores the empty list and
  goes round again with nothing changed.
\<close>

partial_function (option) precinct_loop :: "string list \<Rightarrow> nat \<Rightarrow> (error + string list) option"
where
  "precinct_loop contest k =
     (if length contest \<le> k then Some (Inl IndexError)
      else if 0 < length (re_findall_start rx_precinct_row (contest ! k))
      then Some (Inr (drop k contest))
      else if k < 10000 then precinct_loop contest (k + 1)
      else precinct_loop contest k)"

declare precinct_loop.simps [code]

definition verify_precincts :: "string \<Rightarrow> (error + string list) option" where
  "verify_precincts contest = precinct_loop (splitlines contest) 0"

fun votes_loop :: "string list \<Rightarrow> error + int list" where
  "votes_loop [] = Inr []"
| "votes_loop (vote # rest) =
     (case py_int vote of
        None \<Rightarrow> Inl ValueError
      | Some v \<Rightarrow> (case votes_loop rest of Inl e \<Rightarrow> Inl e | Inr vs \<Rightarrow> Inr (v # vs)))"

text \<open>The body of the loop of \<open>grab_precincts\<close>: one line of the region, one row.\<close>

definition precinct_result :: "string \<Rightarrow> error + cell list" where
  "precinct_result line =
     (case re_split rx_spaces line of
        [] \<Rightarrow> Inl IndexError
      | first # precinct_votes_str \<Rightarrow>
          (let precinct_descrip = last (re_split rx_id_space first)
           in case votes_loop precinct_votes_str of
                Inl e \<Rightarrow> Inl e
              | Inr precinct_votes \<Rightarrow>
                  (let precinct_ids = re_findall rx_id first;
                       primary_id = (if 1 \<le> length precinct_ids
                                     then CStr (precinct_ids ! 0) else CNone);
                       secondary_id = (if 2 \<le> length precinct_ids
                                       then CStr (precinct_ids ! 1) else CNone)
                   in Inr ([primary_id, secondary_id, CStr precinct_descrip]
                             @ map CInt precinct_votes))))"

fun precincts_loop :: "string list \<Rightarrow> error + cell list list" where
  "precincts_loop [] = Inr []"
| "precincts_loop (precinct # rest) =
     (case precinct_result precinct of
        Inl e \<Rightarrow> Inl e
      | Inr row \<Rightarrow> (case precincts_loop rest of Inl e \<Rightarrow> Inl e | Inr rows \<Rightarrow> Inr (row # rows)))"

definition grab_precincts :: "string \<Rightarrow> (error + cell list list) option" where
  "grab_precincts contest =
     (case verify_precincts contest of
        None \<Rightarrow> None
      | Some (Inl e) \<Rightarrow> Some (Inl e)
      | Some (Inr contest_cleaned) \<Rightarrow> Some (precincts_loop contest_cleaned))"

section \<open>The index of contests\<close>

text \<open>
  The keys of \<open>titles_dict\<close> are titles, and a title can be \<open>None\<close>. In the second
  branch the source adds \<open>str(k)\<close> to the title, which raises \<open>TypeError\<close> when
  the title is \<open>None\<close>. The loop runs over \<open>range(1, len(contests))\<close>.
\<close>

type_synonym titles = "string option \<rightharpoonup> int"

fun titles_loop :: "string list \<Rightarrow> nat list \<Rightarrow> titles \<Rightarrow> error + titles" where
  "titles_loop contests [] titles_dict = Inr titles_dict"
| "titles_loop contests (k # ks) titles_dict =
     (case grab_contest_title (contests ! k) of
        Inl e \<Rightarrow> Inl e
      | Inr contest_title \<Rightarrow>
          if titles_dict contest_title = None
          then titles_loop contests ks (titles_dict(contest_title \<mapsto> int k))
          else (case contest_title of
                  None \<Rightarrow> Inl TypeError
                | Some t \<Rightarrow>
                    titles_loop contests ks
                      (titles_dict(Some (t @ str_int (int k)) \<mapsto> int k))))"

definition display_contests :: "string \<Rightarrow> error + titles" where
  "display_contests canvass =
     (let contests = read_canvass_from_text canvass
      in titles_loop contests [1 ..< length contests] Map.empty)"

section \<open>The table of a contest\<close>

text \<open>
  The loop that builds the header reads \<open>candidates[k]\<close> for \<open>k\<close> from 1 to
  \<open>len(candidates)\<close>; a key that is missing raises \<open>KeyError\<close>.
\<close>

fun header_loop :: "roster \<Rightarrow> nat list \<Rightarrow> string list \<Rightarrow> error + string list" where
  "header_loop candidates [] header = Inr header"
| "header_loop candidates (k # ks) header =
     (case map_of candidates (int k) of
        None \<Rightarrow> Inl (KeyError (int k))
      | Some name \<Rightarrow> header_loop candidates ks (header @ [name]))"

definition build_header :: "roster \<Rightarrow> error + string list" where
  "build_header candidates =
     header_loop candidates [1 ..< length candidates + 1]
       [''Primary precinct ID'', ''Secondary precinct ID'', ''Precinct name'']"

text \<open>
  What a call of \<open>gen_election_table\<close> leaves behind when it returns: the table it
  returns, or the rows it has written to the file at the export path, in the order of
  the calls of \<open>writerow\<close>. The line it prints first is not modelled, and the
  \<open>assert\<close> statement is taken as Python runs it by default, with assertions on.
\<close>

datatype outcome = Returned "cell list list" | Exported string "cell list list"

definition title_cell :: "string option \<Rightarrow> cell" where
  "title_cell title = (case title of None \<Rightarrow> CNone | Some t \<Rightarrow> CStr t)"

definition gen_election_table :: "string \<Rightarrow> int \<Rightarrow> string option \<Rightarrow> (error + outcome) option"
where
  "gen_election_table canvass contest_number export_filepath =
     (let contests = read_canvass_from_text canvass
      in if \<not> contest_number < int (length contests) then Some (Inl AssertionError)
         else
           (case item contests contest_number of
              Inl e \<Rightarrow> Some (Inl e)
            | Inr contest \<Rightarrow>
           (case grab_contest_title contest of
              Inl e \<Rightarrow> Some (Inl e)
            | Inr title \<Rightarrow>
           (case grab_candidates contest of
              Inl e \<Rightarrow> Some (Inl e)
            | Inr candidates \<Rightarrow>
           (case grab_precincts contest of
              None \<Rightarrow> None
            | Some (Inl e) \<Rightarrow> Some (Inl e)
            | Some (Inr precinct_results) \<Rightarrow>
           (case build_header candidates of
              Inl e \<Rightarrow> Some (Inl e)
            | Inr header \<Rightarrow>
                (let rows = [title_cell title] # map CStr header # precinct_results
                 in if export_filepath \<noteq> None \<and> export_filepath \<noteq> Some []
                    then Some (Inr (Exported (the export_filepath) rows))
                    else Some (Inr (Returned rows)))))))))"

section \<open>Separator runs, as the specification counts them\<close>

text \<open>
  The specification speaks of the separator runs of a report: the maximal runs of two or
  more equals signs. \<open>separator_runs\<close> counts them by their first character, an equals
  sign that is followed by another and not preceded by one; the flag of \<open>runs_from\<close>
  says whether the character before the rest of the text was an equals sign. A text
  ends with a separator when its last two characters are equals signs.
\<close>

fun runs_from :: "bool \<Rightarrow> string \<Rightarrow> nat" where
  "runs_from prev [] = 0"
| "runs_from prev [c] = 0"
| "runs_from prev (c # d # cs) =
     (if \<not> prev \<and> c = CHR ''='' \<and> d = CHR ''='' then 1 else 0)
       + runs_from (c = CHR ''='') (d # cs)"

definition separator_runs :: "string \<Rightarrow> nat" where
  "separator_runs s = runs_from False s"

definition ends_with_separator :: "string \<Rightarrow> bool" where
  "ends_with_separator s = (take 2 (rev s) = ''=='')"

section \<open>Sample blocks\<close>

text \<open>A block whose title takes two lines, with white space around both.\<close>

definition two_line_block :: string where
  "two_line_block =
     ''PRECINCT REPORT   VOTES  PERCENT\<newline>STATE REPRESENTATIVE   \<newline>   62ND DISTRICT  \<newline>(Vote for not more than 1)\<newline>''"

section \<open>Gaps in a roster\<close>

text \<open>
  The specification calls a roster inconsistent when some index from 1 to its largest
  index is missing from it.
\<close>

definition max_index :: "roster \<Rightarrow> int" where
  "max_index candidates = foldr max (map fst candidates) 0"

definition has_gap :: "roster \<Rightarrow> bool" where
  "has_gap candidates = (\<exists>k \<in> set [1 .. max_index candidates]. map_of candidates k = None)"

text \<open>A report whose one contest has the candidates 1 and 3 and no candidate 2.\<close>

definition gap_report :: string where
  "gap_report = ''Canvass of votes\<newline>=====\<newline>REPORT        VOTES  PERCENT\<newline>MAYOR\<newline>(Vote for not more than 1)\<newline>01 = Alice A\<newline>03 = Carol C\<newline>0001 Precinct One     10   20\<newline>''"

section \<open>Sample precinct regions\<close>

text \<open>
  A block with two candidates whose precinct rows carry three vote fields and one.
\<close>

definition uneven_block :: string where
  "uneven_block = ''REPORT        VOTES  PERCENT\<newline>MAYOR\<newline>(Vote for not more than 1)\<newline>01 = Alice A\<newline>02 = Bob B\<newline>0001 Precinct One     10   20   30\<newline>0002 Precinct Two     5\<newline>''"

text \<open>
  A report whose second precinct row has a vote field with the letter O for a zero.
\<close>

definition malformed_report :: string where
  "malformed_report = ''Canvass of votes\<newline>=====\<newline>REPORT        VOTES  PERCENT\<newline>MAYOR\<newline>(Vote for not more than 1)\<newline>01 = Alice A\<newline>02 = Bob B\<newline>0001 Precinct One     10   20\<newline>0002 Precinct Two     1O   7\<newline>''"

section \<open>The synthetic report of the specification\<close>

text \<open>
  The report of section 8 of the specification: a preamble, a separator, and the contest
  \<open>U.S. SENATE\<close> with four candidates and the two precinct rows as the specification
  writes them.
\<close>

definition senate_report :: string where
  "senate_report = ''Canvass of votes\<newline>=====\<newline>PRECINCT REPORT        VOTES  PERCENT\<newline>U.S. SENATE\<newline>(Vote for not more than 1)\<newline>01 = Alice A\<newline>02 = Bob B\<newline>03 = overvotes\<newline>04 = undervotes\<newline>0001    Precinct One     100   90   1   0\<newline>0002 0005 Precinct Two   50 40 0 1\<newline>''"

text \<open>
  The same report with the two rows in the layout the parser reads: one space between
  the identifier and the name, and three spaces between all the vote fields.
\<close>

definition senate_report_spaced :: string where
  "senate_report_spaced = ''Canvass of votes\<newline>=====\<newline>PRECINCT REPORT        VOTES  PERCENT\<newline>U.S. SENATE\<newline>(Vote for not more than 1)\<newline>01 = Alice A\<newline>02 = Bob B\<newline>03 = overvotes\<newline>04 = undervotes\<newline>0001 Precinct One     100   90   1   0\<newline>0002 0005 Precinct Two   50   40   0   1\<newline>''"

text \<open>The table of that contest: the title row, the header and the two precinct rows.\<close>

definition senate_table :: "cell list list" where
  "senate_table =
     [[CStr ''U.S. SENATE''],
      [CStr ''Primary precinct ID'', CStr ''Secondary precinct ID'', CStr ''Precinct name'',
       CStr ''Alice A'', CStr ''Bob B'', CStr ''overvotes'', CStr ''undervotes''],
      [CStr ''0001'', CNone, CStr ''Precinct One'', CInt 100, CInt 90, CInt 1, CInt 0],
      [CStr ''0002'', CStr ''0005'', CStr ''Precinct Two'', CInt 50, CInt 40, CInt 0, CInt 1]]"

section \<open>Sample reports with repeated titles\<close>

text \<open>
  A separator and a block with the given title, and reports made of such blocks after
  a preamble: one with the title \<open>WARD 13\<close> at the positions 1 and 4 and the title
  \<open>WARD 1\<close> at 2 and 3, and one with two contests of one title after a contest of
  another.
\<close>

definition contest_block :: "string \<Rightarrow> string" where
  "contest_block title =
     ''=====\<newline>REPORT        VOTES  PERCENT\<newline>'' @ title
       @ ''\<newline>(Vote for not more than 1)\<newline>01 = Alice A\<newline>''"

definition wards_report :: string where
  "wards_report =
     ''Canvass of votes\<newline>'' @ contest_block ''WARD 13'' @ contest_block ''WARD 1''
       @ contest_block ''WARD 1'' @ contest_block ''WARD 13''"

definition two_mayors_report :: string where
  "two_mayors_report =
     ''Canvass of votes\<newline>'' @ contest_block ''CLERK'' @ contest_block ''MAYOR''
       @ contest_block ''MAYOR''"

text \<open>
  The contest number that \<open>display_contests\<close> stores under a key, for stating what
  the returned dictionary holds.
\<close>

definition contest_number_of :: "string \<Rightarrow> string option \<Rightarrow> int option" where
  "contest_number_of canvass key =
     (case display_contests canvass of Inl e \<Rightarrow> None | Inr titles_dict \<Rightarrow> titles_dict key)"

section \<open>The bounded scan for the title\<close>

text \<open>
  A block with no marker line at all: the scan returns \<open>None\<close> only when the block
  has at least 10000 lines. On a shorter block it reads one line beyond the last.
\<close>

lemma title_loop_no_marker:
  assumes "\<forall>i < length contest. \<not> contains ''VOTES'' (upper (contest ! i))"
  shows "title_loop contest k =
           (if k < 10000 \<and> length contest < 10000 then Inl IndexError else Inr None)"
  using assms
proof (induction contest k rule: title_loop.induct)
  case (1 contest k)
  show ?case
  proof (cases "k < 10000")
    case False
    then show ?thesis by (subst title_loop.simps) simp
  next
    case True
    show ?thesis
    proof (cases "length contest \<le> k")
      case True
      with \<open>k < 10000\<close> show ?thesis by (subst title_loop.simps) simp
    next
      case False
      then have nm: "\<not> contains ''VOTES'' (upper (contest ! k))" using "1.prems" by simp
      have "title_loop contest k = title_loop contest (k + 1)"
        using \<open>k < 10000\<close> False nm by (subst title_loop.simps) simp
      also have "\<dots> = (if k + 1 < 10000 \<and> length contest < 10000 then Inl IndexError else Inr None)"
        using "1.IH" \<open>k < 10000\<close> False nm "1.prems" by simp
      also have "\<dots> = (if k < 10000 \<and> length contest < 10000 then Inl IndexError else Inr None)"
        using \<open>k < 10000\<close> False by auto
      finally show ?thesis .
    qed
  qed
qed

text \<open>
  C2. The claim: for a block with no line that contains \<open>VOTES\<close>,
  \<open>grab_contest_title\<close> returns \<open>None\<close> and does not raise. On the block of one
  line below, which has no marker, the function raises \<open>IndexError\<close>: the scan reads
  line 1 of a block that has line 0 only.
\<close>

theorem grab_contest_title_short_block:
  "grab_contest_title ''No marker in this block'' = Inl IndexError"
  by code_simp

section \<open>The scan for the first precinct row\<close>

text \<open>
  Once \<open>k\<close> has reached 10000 on a line that is no precinct row, the loop makes no
  progress: no call from such a state returns.
\<close>

lemma precinct_loop_stuck:
  assumes "precinct_loop contest k = Some r"
  shows "\<not> (10000 \<le> k \<and> k < length contest \<and> rx_precinct_row (contest ! k) = None)"
proof (rule precinct_loop.raw_induct [OF _ assms])
  fix f :: "string list \<Rightarrow> nat \<Rightarrow> (error + string list) option" and c k r
  assume IH: "\<And>c k r. f c k = Some r \<Longrightarrow>
                \<not> (10000 \<le> k \<and> k < length c \<and> rx_precinct_row (c ! k) = None)"
    and body: "(if length c \<le> k then Some (Inl IndexError)
                else if 0 < length (re_findall_start rx_precinct_row (c ! k))
                then Some (Inr (drop k c))
                else if k < 10000 then f c (k + 1) else f c k) = Some r"
  show "\<not> (10000 \<le> k \<and> k < length c \<and> rx_precinct_row (c ! k) = None)"
  proof
    assume h: "10000 \<le> k \<and> k < length c \<and> rx_precinct_row (c ! k) = None"
    then have "f c k = Some r"
      using body by (simp add: re_findall_start_def)
    then show False using IH h by blast
  qed
qed

text \<open>
  A block with no precinct row at all: the scan raises \<open>IndexError\<close> on a block of at
  most 10000 lines and does not return on a longer one. It never returns the empty list.
\<close>

lemma precinct_loop_no_row:
  assumes "\<forall>i < length contest. rx_precinct_row (contest ! i) = None" and "k \<le> 10000"
  shows "precinct_loop contest k =
           (if length contest \<le> 10000 \<or> length contest \<le> k then Some (Inl IndexError) else None)"
  using assms(2)
proof (induction "10000 - k" arbitrary: k)
  case 0
  then have k: "k = 10000" by simp
  show ?case
  proof (cases "length contest \<le> k")
    case True
    then show ?thesis by (subst precinct_loop.simps) simp
  next
    case False
    then have "10000 \<le> k \<and> k < length contest \<and> rx_precinct_row (contest ! k) = None"
      using k assms(1) by simp
    then have "precinct_loop contest k = None"
      using precinct_loop_stuck [of contest k] by (cases "precinct_loop contest k") auto
    then show ?thesis using False k by simp
  qed
next
  case (Suc n)
  then have k: "k < 10000" by simp
  show ?case
  proof (cases "length contest \<le> k")
    case True
    then show ?thesis by (subst precinct_loop.simps) simp
  next
    case False
    then have nm: "rx_precinct_row (contest ! k) = None" using assms(1) by simp
    have "precinct_loop contest k = precinct_loop contest (k + 1)"
      using False nm k by (subst precinct_loop.simps) (simp add: re_findall_start_def)
    also have "\<dots> = (if length contest \<le> 10000 \<or> length contest \<le> k + 1
                       then Some (Inl IndexError) else None)"
      using Suc.hyps(1) [of "k + 1"] Suc.hyps(2) k by simp
    also have "\<dots> = (if length contest \<le> 10000 \<or> length contest \<le> k
                       then Some (Inl IndexError) else None)"
      using False k by auto
    finally show ?thesis .
  qed
qed
text \<open>
  C3. The claim: for a block in which no line is a precinct row, \<open>verify_precincts\<close>
  terminates and returns the empty sequence. On the block of two lines below, neither
  of them a precinct row, the function raises \<open>IndexError\<close>.
\<close>

theorem verify_precincts_no_rows:
  "verify_precincts ''Informational block\<newline>with no precinct rows\<newline>'' = Some (Inl IndexError)"
  by code_simp

section \<open>Segmenting the report\<close>

text \<open>
  Every text is built from the empty text by putting in front a character that is no
  equals sign, a single equals sign, or a run of two or more equals signs. The scan of
  \<open>re.split\<close> and the count of separator runs both follow this structure.
\<close>

lemma separator_induct [case_names Nil Other Single Run]:
  assumes "P []"
    and "\<And>c cs. c \<noteq> CHR ''='' \<Longrightarrow> P cs \<Longrightarrow> P (c # cs)"
    and "\<And>cs. cs = [] \<or> hd cs \<noteq> CHR ''='' \<Longrightarrow> P cs \<Longrightarrow> P (CHR ''='' # cs)"
    and "\<And>n rest. 2 \<le> n \<Longrightarrow> rest = [] \<or> hd rest \<noteq> CHR ''='' \<Longrightarrow> P rest
           \<Longrightarrow> P (replicate n (CHR ''='') @ rest)"
  shows "P s"
proof (induction "length s" arbitrary: s rule: less_induct)
  case less
  show ?case
  proof (cases s)
    case Nil
    then show ?thesis using assms(1) by simp
  next
    case (Cons c cs)
    show ?thesis
    proof (cases "c = CHR ''=''")
      case False
      then show ?thesis using assms(2) less Cons by simp
    next
      case True
      define n where "n = length (takeWhile (\<lambda>c. c = CHR ''='') s)"
      define rest where "rest = dropWhile (\<lambda>c. c = CHR ''='') s"
      have tw: "takeWhile (\<lambda>c. c = CHR ''='') s = replicate n (CHR ''='')"
        unfolding n_def by (induction s) auto
      have s: "s = replicate n (CHR ''='') @ rest"
        using takeWhile_dropWhile_id [of "\<lambda>c. c = CHR ''=''" s] tw rest_def by simp
      have rest: "rest = [] \<or> hd rest \<noteq> CHR ''=''"
        unfolding rest_def using hd_dropWhile [of "\<lambda>c. c = CHR ''=''" s] by blast
      have n1: "1 \<le> n" unfolding n_def using Cons True by simp
      show ?thesis
      proof (cases "2 \<le> n")
        case True
        have "length s = n + length rest" using arg_cong [OF s, of length] by simp
        then have "length rest < length s" using True by simp
        then have "P rest" using less by simp
        then have "P (replicate n (CHR ''='') @ rest)" using assms(4) [OF True rest] by simp
        then show ?thesis using s by simp
      next
        case False
        then have "n = 1" using n1 by simp
        then have "s = CHR ''='' # rest" using s by simp
        then show ?thesis using assms(3) [OF rest] less by simp
      qed
    qed
  qed
qed

lemma rx_separator_other: "c \<noteq> CHR ''='' \<Longrightarrow> rx_separator (c # cs) = None"
  by (simp add: rx_separator_def)

lemma rx_separator_single:
  "cs = [] \<or> hd cs \<noteq> CHR ''='' \<Longrightarrow> rx_separator (CHR ''='' # cs) = None"
  by (cases cs) (auto simp: rx_separator_def)

lemma takeWhile_run:
  "rest = [] \<or> hd rest \<noteq> c \<Longrightarrow> takeWhile (\<lambda>x. x = c) (replicate n c @ rest) = replicate n c"
proof (induction n)
  case 0
  then show ?case by (cases rest) auto
next
  case (Suc n)
  then show ?case by simp
qed

lemma rx_separator_run:
  "2 \<le> n \<Longrightarrow> rest = [] \<or> hd rest \<noteq> CHR ''='' \<Longrightarrow>
     rx_separator (replicate n (CHR ''='') @ rest) = Some n"
  using takeWhile_run [of rest "CHR ''=''" n] by (simp add: rx_separator_def)

lemma re_split_from_other:
  "c \<noteq> CHR ''='' \<Longrightarrow> re_split_from rx_separator cur (c # cs) = re_split_from rx_separator (c # cur) cs"
  by (simp add: rx_separator_other)

lemma re_split_from_single:
  "cs = [] \<or> hd cs \<noteq> CHR ''='' \<Longrightarrow>
     re_split_from rx_separator cur (CHR ''='' # cs) = re_split_from rx_separator (CHR ''='' # cur) cs"
  using rx_separator_single [of cs] by simp

lemma re_split_from_run:
  assumes "2 \<le> n" and "rest = [] \<or> hd rest \<noteq> CHR ''=''"
  shows "re_split_from rx_separator cur (replicate n (CHR ''='') @ rest)
           = rev cur # re_split_from rx_separator [] rest"
proof -
  obtain m where n: "n = Suc m" using assms(1) by (cases n) auto
  have "rx_separator (CHR ''='' # replicate m (CHR ''='') @ rest) = Some n"
    using rx_separator_run [OF assms] n by simp
  then show ?thesis using n assms(1) by simp
qed

lemma runs_from_other: "c \<noteq> CHR ''='' \<Longrightarrow> runs_from p (c # cs) = runs_from False cs"
  by (cases cs) auto

lemma runs_from_no_eq: "cs = [] \<or> hd cs \<noteq> CHR ''='' \<Longrightarrow> runs_from p cs = runs_from False cs"
  by (cases cs) (auto simp: runs_from_other)

lemma runs_from_single:
  "cs = [] \<or> hd cs \<noteq> CHR ''='' \<Longrightarrow> runs_from False (CHR ''='' # cs) = runs_from False cs"
  by (cases cs) (auto simp: runs_from_other)

lemma runs_from_inside:
  "rest = [] \<or> hd rest \<noteq> CHR ''='' \<Longrightarrow>
     runs_from True (replicate n (CHR ''='') @ rest) = runs_from False rest"
proof (induction n)
  case 0
  then show ?case using runs_from_no_eq [of rest True] by simp
next
  case (Suc n)
  show ?case
  proof (cases "replicate n (CHR ''='') @ rest")
    case Nil
    then show ?thesis by simp
  next
    case (Cons d ds)
    then have "runs_from True (CHR ''='' # replicate n (CHR ''='') @ rest)
                 = runs_from True (replicate n (CHR ''='') @ rest)"
      by simp
    then show ?thesis using Suc by simp
  qed
qed

lemma runs_from_run:
  assumes "2 \<le> n" and "rest = [] \<or> hd rest \<noteq> CHR ''=''"
  shows "runs_from False (replicate n (CHR ''='') @ rest) = 1 + runs_from False rest"
proof -
  obtain m where n: "n = Suc (Suc m)" using assms(1) by (cases n; cases "n - 1") auto
  have "runs_from False (CHR ''='' # CHR ''='' # replicate m (CHR ''='') @ rest)
          = 1 + runs_from True (replicate (Suc m) (CHR ''='') @ rest)"
    by simp
  then show ?thesis using runs_from_inside [OF assms(2), of "Suc m"] n by simp
qed

lemma length_re_split_from:
  "length (re_split_from rx_separator cur s) = runs_from False s + 1"
proof (induction s arbitrary: cur rule: separator_induct)
  case Nil
  then show ?case by simp
next
  case (Other c cs)
  show ?case
    unfolding re_split_from_other [OF Other(1)] runs_from_other [OF Other(1)]
    by (rule Other(2))
next
  case (Single cs)
  show ?case
    unfolding re_split_from_single [OF Single(1)] runs_from_single [OF Single(1)]
    by (rule Single(2))
next
  case (Run n rest)
  have a: "re_split_from rx_separator cur (replicate n (CHR ''='') @ rest)
           = rev cur # re_split_from rx_separator [] rest"
    by (rule re_split_from_run [OF Run(1,2)])
  have b: "runs_from False (replicate n (CHR ''='') @ rest) = 1 + runs_from False rest"
    by (rule runs_from_run [OF Run(1,2)])
  have c: "length (re_split_from rx_separator [] rest) = runs_from False rest + 1"
    by (rule Run(3))
  have "length (rev cur # re_split_from rx_separator [] rest) = 1 + runs_from False rest + 1"
    using c by (simp only: list.size add.commute add.left_commute One_nat_def add_Suc_right add_0_right add_Suc length_Cons)
  then show ?case by (simp only: a b)
qed


lemma re_split_from_not_Nil: "re_split_from p cur s \<noteq> []"
  by (induction p cur s rule: re_split_from.induct) (auto split: option.splits)

lemma ends_other: "c \<noteq> CHR ''='' \<Longrightarrow> ends_with_separator (c # cs) = ends_with_separator cs"
proof (cases "2 \<le> length cs")
  case True
  then show ?thesis by (simp add: ends_with_separator_def)
next
  case False
  assume c: "c \<noteq> CHR ''=''"
  from False consider "cs = []" | d where "cs = [d]"
    by (cases cs; cases "tl cs") auto
  then show ?thesis using c by cases (auto simp: ends_with_separator_def)
qed

lemma ends_single:
  assumes "cs = [] \<or> hd cs \<noteq> CHR ''=''"
  shows "ends_with_separator (CHR ''='' # cs) = ends_with_separator cs"
proof (cases "2 \<le> length cs")
  case True
  then show ?thesis by (simp add: ends_with_separator_def)
next
  case False
  then consider "cs = []" | d where "cs = [d]"
    by (cases cs; cases "tl cs") auto
  then show ?thesis using assms by cases (auto simp: ends_with_separator_def)
qed

lemma ends_run:
  assumes "2 \<le> n" and "rest = [] \<or> hd rest \<noteq> CHR ''=''"
  shows "ends_with_separator (replicate n (CHR ''='') @ rest)
           = (rest = [] \<or> ends_with_separator rest)"
proof (cases "2 \<le> length rest")
  case True
  then show ?thesis by (auto simp: ends_with_separator_def)
next
  case False
  then consider "rest = []" | d where "rest = [d]"
    by (cases rest; cases "tl rest") auto
  then show ?thesis
  proof cases
    case 1
    have "take 2 (rev (replicate n (CHR ''=''))) = replicate 2 (CHR ''='')"
      using assms(1) by (simp add: min_def)
    also have "\<dots> = ''==''"
      by (simp add: numeral_2_eq_2)
    finally have "ends_with_separator (replicate n (CHR ''=''))"
      by (simp only: ends_with_separator_def)
    then show ?thesis using 1 by (simp add: ends_with_separator_def)
  next
    case 2
    obtain m where "n = Suc m" using assms(1) by (cases n) auto
    then show ?thesis using 2 assms(2) by (auto simp: ends_with_separator_def)
  qed
qed

lemma last_re_split_from:
  "(last (re_split_from rx_separator cur s) = [])
     = (ends_with_separator s \<or> (s = [] \<and> cur = []))"
proof (induction s arbitrary: cur rule: separator_induct)
  case Nil
  then show ?case by (simp add: ends_with_separator_def)
next
  case (Other c cs)
  show ?case
    unfolding re_split_from_other [OF Other(1)] ends_other [OF Other(1)]
    using Other(2) [of "c # cur"] by simp
next
  case (Single cs)
  show ?case
    unfolding re_split_from_single [OF Single(1)] ends_single [OF Single(1)]
    using Single(2) [of "CHR ''='' # cur"] by simp
next
  case (Run n rest)
  have n: "n \<noteq> 0" using Run(1) by simp
  have "last (rev cur # re_split_from rx_separator [] rest)
          = last (re_split_from rx_separator [] rest)"
    using re_split_from_not_Nil [of rx_separator "[]" rest] by simp
  then show ?case
    unfolding re_split_from_run [OF Run(1,2)] ends_run [OF Run(1,2)]
    using Run(3) [of "[]"] n by auto
qed

lemma re_split_from_no_runs:
  "runs_from False s = 0 \<Longrightarrow> re_split_from rx_separator cur s = [rev cur @ s]"
proof (induction s arbitrary: cur rule: separator_induct)
  case Nil
  then show ?case by simp
next
  case (Other c cs)
  have "runs_from False cs = 0" using Other(3) runs_from_other [OF Other(1), of False cs] by simp
  then show ?case
    unfolding re_split_from_other [OF Other(1)] using Other(2) [of "c # cur"] by simp
next
  case (Single cs)
  have "runs_from False cs = 0" using Single(3) runs_from_single [OF Single(1)] by simp
  then show ?case
    unfolding re_split_from_single [OF Single(1)] using Single(2) [of "CHR ''='' # cur"] by simp
next
  case (Run n rest)
  then show ?case using runs_from_run [OF Run(1,2)] by simp
qed

text \<open>
  C4, as amended. \<open>read_canvass_from_text\<close> drops a last block that is empty. So a
  text with \<open>N\<close> separator runs yields \<open>N + 1\<close> blocks unless it is empty or ends with
  a separator, when it yields \<open>N\<close>; a text with no separator run yields the one block
  that is the whole text when it is not empty, and no block at all when it is empty.
\<close>

theorem read_canvass_blocks:
  "length (read_canvass_from_text canvass)
     = (if canvass = [] \<or> ends_with_separator canvass
        then separator_runs canvass else separator_runs canvass + 1)
   \<and> (separator_runs canvass = 0 \<longrightarrow>
        read_canvass_from_text canvass = (if canvass = [] then [] else [canvass]))"
proof
  have len: "length (re_split rx_separator canvass) = separator_runs canvass + 1"
    by (simp add: re_split_def separator_runs_def length_re_split_from)
  have lst: "(last (re_split rx_separator canvass) = [])
               = (canvass = [] \<or> ends_with_separator canvass)"
    using last_re_split_from [of "[]" canvass] by (auto simp: re_split_def)
  show "length (read_canvass_from_text canvass)
     = (if canvass = [] \<or> ends_with_separator canvass
        then separator_runs canvass else separator_runs canvass + 1)"
    using len lst by (simp add: read_canvass_from_text_def Let_def)
  show "separator_runs canvass = 0 \<longrightarrow>
        read_canvass_from_text canvass = (if canvass = [] then [] else [canvass])"
  proof
    assume "separator_runs canvass = 0"
    then have "re_split rx_separator canvass = [canvass]"
      using re_split_from_no_runs [of canvass "[]"] by (simp add: re_split_def separator_runs_def)
    then show "read_canvass_from_text canvass = (if canvass = [] then [] else [canvass])"
      by (simp add: read_canvass_from_text_def)
  qed
qed

theorem read_canvass_blocks_witness:
  "separator_runs ''Preamble = text'' = 0
   \<and> read_canvass_from_text ''Preamble = text'' = [''Preamble = text'']
   \<and> length (read_canvass_from_text ''a==b====c'') = 3"
  using read_canvass_blocks [of "''Preamble = text''"] read_canvass_blocks [of "''a==b====c''"]
  by (simp add: separator_runs_def ends_with_separator_def)

text \<open>
  C4, as claimed, fails: a text with one separator run at its end yields one block, not
  two, and the empty text yields no block, not the single-element sequence.
\<close>

theorem read_canvass_counterexample:
  "separator_runs ''Preamble=='' = 1
   \<and> read_canvass_from_text ''Preamble=='' = [''Preamble'']
   \<and> separator_runs [] = 0
   \<and> read_canvass_from_text [] = []"
  by code_simp

section \<open>Titles of two lines\<close>

text \<open>What trimming leaves at the two ends of a string.\<close>

lemma rstrip_no_trailing: "rstrip s \<noteq> [] \<Longrightarrow> \<not> isspace (last (rstrip s))"
proof -
  assume ne: "rstrip s \<noteq> []"
  then have d: "dropWhile isspace (rev s) \<noteq> []" by (simp add: rstrip_def)
  then have "\<not> isspace (hd (dropWhile isspace (rev s)))" by (rule hd_dropWhile)
  then show ?thesis using d by (simp add: rstrip_def last_rev)
qed

lemma lstrip_no_leading: "lstrip s \<noteq> [] \<Longrightarrow> \<not> isspace (hd (lstrip s))"
  unfolding lstrip_def by (rule hd_dropWhile)

lemma rstrip_Cons: "\<not> isspace c \<Longrightarrow> rstrip (c # cs) = c # rstrip cs"
  by (simp add: rstrip_def dropWhile_append)

lemma rstrip_Nil_iff: "(rstrip s = []) = (\<forall>c \<in> set s. isspace c)"
  by (simp add: rstrip_def dropWhile_eq_Nil_conv)

lemma rstrip_keeps_head: "s \<noteq> [] \<Longrightarrow> hd (rstrip s) = hd s \<or> rstrip s = []"
proof (induction s)
  case Nil
  then show ?case by simp
next
  case (Cons c cs)
  show ?case
  proof (cases "rstrip (c # cs) = []")
    case True
    then show ?thesis by simp
  next
    case False
    have "rstrip (c # cs) = rev (dropWhile isspace (rev cs @ [c]))" by (simp add: rstrip_def)
    also have "\<dots> = c # rev (dropWhile isspace (rev cs))"
      using False by (auto simp: rstrip_def dropWhile_append split: if_splits)
    finally show ?thesis by simp
  qed
qed

lemma strip_Nil_iff: "(rstrip (lstrip s) = []) = (\<forall>c \<in> set s. isspace c)"
proof
  assume "rstrip (lstrip s) = []"
  then have "\<forall>c \<in> set (dropWhile isspace s). isspace c"
    by (simp add: rstrip_Nil_iff lstrip_def)
  then have "dropWhile isspace s = []"
    using hd_dropWhile [of isspace s] by (cases "dropWhile isspace s") auto
  then show "\<forall>c \<in> set s. isspace c" by (simp add: dropWhile_eq_Nil_conv)
next
  assume "\<forall>c \<in> set s. isspace c"
  then have d: "dropWhile isspace s = []" by (simp add: dropWhile_eq_Nil_conv)
  show "rstrip (lstrip s) = []" unfolding rstrip_def lstrip_def d by simp
qed

lemma strip_no_leading: "rstrip (lstrip s) \<noteq> [] \<Longrightarrow> \<not> isspace (hd (rstrip (lstrip s)))"
proof -
  assume ne: "rstrip (lstrip s) \<noteq> []"
  then have l: "lstrip s \<noteq> []" by (auto simp: rstrip_def)
  then have "hd (rstrip (lstrip s)) = hd (lstrip s)" using rstrip_keeps_head [OF l] ne by simp
  then show ?thesis using lstrip_no_leading [OF l] by simp
qed

lemma title_loop_skip:
  assumes "\<forall>i. j \<le> i \<and> i < k \<longrightarrow> \<not> contains ''VOTES'' (upper (contest ! i))"
    and "j \<le> k" and "k < 10000" and "k < length contest"
  shows "title_loop contest j = title_loop contest k"
  using assms(1,2)
proof (induction "k - j" arbitrary: j)
  case 0
  then show ?case by simp
next
  case (Suc n)
  then have j: "j < k" by simp
  then have nm: "\<not> contains ''VOTES'' (upper (contest ! j))" using Suc.prems(1) by simp
  have "title_loop contest j = title_loop contest (j + 1)"
    using j nm assms(3,4) by (subst title_loop.simps) simp
  also have "\<dots> = title_loop contest k"
    using Suc.hyps(1) [of "j + 1"] Suc.hyps(2) Suc.prems(1) j by simp
  finally show ?case .
qed

lemma title_loop_at_marker:
  assumes "k < 10000" and "k + 2 < length contest"
    and "contains ''VOTES'' (upper (contest ! k))"
  shows "title_loop contest k =
           (if contains ''vote for not more'' (lower (contest ! (k + 2)))
            then Inr (Some (rstrip (contest ! (k + 1))))
            else Inr (Some (rstrip (contest ! (k + 1)) @ '' '' @
                            rstrip (lstrip (contest ! (k + 2))))))"
  using assms by (subst title_loop.simps) simp

text \<open>
  C8, as amended. When the first marker line is line \<open>k\<close>, two more lines follow it
  and line \<open>k + 2\<close> does not hold \<open>vote for not more\<close>, \<open>grab_contest_title\<close>
  returns the title line with its right end trimmed, one space, and line \<open>k + 2\<close>
  trimmed at both ends. The first part does not end with white space and the second
  does not start with it, so the one space is all that stands between them. The result
  has no white space at its end when line \<open>k + 2\<close> has a character that is not white
  space, and none at its start when the title line starts with such a character: the
  left end of the title line is not trimmed.
\<close>

theorem grab_contest_title_two_lines:
  assumes "k < 10000" and "k + 2 < length (splitlines contest)"
    and "\<forall>i < k. \<not> contains ''VOTES'' (upper (splitlines contest ! i))"
    and "contains ''VOTES'' (upper (splitlines contest ! k))"
    and "\<not> contains ''vote for not more'' (lower (splitlines contest ! (k + 2)))"
  shows "\<exists>title. grab_contest_title contest = Inr (Some title)
           \<and> title = rstrip (splitlines contest ! (k + 1)) @ '' '' @
                       rstrip (lstrip (splitlines contest ! (k + 2)))
           \<and> (rstrip (splitlines contest ! (k + 1)) = []
                \<or> \<not> isspace (last (rstrip (splitlines contest ! (k + 1)))))
           \<and> (rstrip (lstrip (splitlines contest ! (k + 2))) = []
                \<or> \<not> isspace (hd (rstrip (lstrip (splitlines contest ! (k + 2))))))
           \<and> ((\<exists>c \<in> set (splitlines contest ! (k + 2)). \<not> isspace c)
                \<longrightarrow> \<not> isspace (last title))
           \<and> (splitlines contest ! (k + 1) \<noteq> [] \<and> \<not> isspace (hd (splitlines contest ! (k + 1)))
                \<longrightarrow> \<not> isspace (hd title))"
proof -
  define ls where "ls = splitlines contest"
  define t where "t = rstrip (ls ! (k + 1))"
  define u where "u = rstrip (lstrip (ls ! (k + 2)))"
  have "title_loop ls 0 = title_loop ls k"
    using title_loop_skip [of 0 k ls] assms(1,2,3) by (simp add: ls_def)
  also have "\<dots> = Inr (Some (t @ '' '' @ u))"
    using title_loop_at_marker [of k ls] assms(1,2,4,5) by (simp add: ls_def t_def u_def)
  finally have res: "grab_contest_title contest = Inr (Some (t @ '' '' @ u))"
    by (simp add: grab_contest_title_def ls_def)
  have a: "t = [] \<or> \<not> isspace (last t)"
    using rstrip_no_trailing [of "ls ! (k + 1)"] by (auto simp: t_def)
  have b: "u = [] \<or> \<not> isspace (hd u)"
    using strip_no_leading [of "ls ! (k + 2)"] by (auto simp: u_def)
  have c: "(\<exists>c \<in> set (ls ! (k + 2)). \<not> isspace c) \<longrightarrow> \<not> isspace (last (t @ '' '' @ u))"
  proof
    assume "\<exists>c \<in> set (ls ! (k + 2)). \<not> isspace c"
    then have ne: "u \<noteq> []" using strip_Nil_iff [of "ls ! (k + 2)"] by (auto simp: u_def)
    then have "\<not> isspace (last u)"
      using rstrip_no_trailing [of "lstrip (ls ! (k + 2))"] by (simp add: u_def)
    then show "\<not> isspace (last (t @ '' '' @ u))" using ne by simp
  qed
  have d: "ls ! (k + 1) \<noteq> [] \<and> \<not> isspace (hd (ls ! (k + 1))) \<longrightarrow> \<not> isspace (hd (t @ '' '' @ u))"
  proof
    assume h: "ls ! (k + 1) \<noteq> [] \<and> \<not> isspace (hd (ls ! (k + 1)))"
    then obtain x xs where x: "ls ! (k + 1) = x # xs" by (cases "ls ! (k + 1)") auto
    then have "t = x # rstrip xs" using h rstrip_Cons [of x xs] by (simp add: t_def)
    then show "\<not> isspace (hd (t @ '' '' @ u))" using h x by simp
  qed
  show ?thesis using res a b c d unfolding ls_def t_def u_def by blast
qed

theorem grab_contest_title_two_lines_witness:
  "contains ''VOTES'' (upper (splitlines two_line_block ! 0))
   \<and> \<not> contains ''vote for not more'' (lower (splitlines two_line_block ! 2))
   \<and> grab_contest_title two_line_block = Inr (Some ''STATE REPRESENTATIVE 62ND DISTRICT'')"
proof -
  have l: "splitlines two_line_block =
             [''PRECINCT REPORT   VOTES  PERCENT'', ''STATE REPRESENTATIVE   '',
              ''   62ND DISTRICT  '', ''(Vote for not more than 1)'']"
    by code_simp
  have 1: "(0::nat) < 10000" by simp
  have 2: "0 + 2 < length (splitlines two_line_block)" by (simp add: l)
  have 3: "\<forall>i < (0::nat). \<not> contains ''VOTES'' (upper (splitlines two_line_block ! i))" by simp
  have 4: "contains ''VOTES'' (upper (splitlines two_line_block ! 0))"
    unfolding l by code_simp
  have 5: "\<not> contains ''vote for not more'' (lower (splitlines two_line_block ! (0 + 2)))"
    unfolding l by code_simp
  have r: "rstrip (splitlines two_line_block ! (0 + 1)) @ '' '' @
             rstrip (lstrip (splitlines two_line_block ! (0 + 2)))
           = ''STATE REPRESENTATIVE 62ND DISTRICT''"
    unfolding l by code_simp
  have 6: "\<not> contains ''vote for not more'' (lower (splitlines two_line_block ! 2))"
    unfolding l by code_simp
  obtain title where "grab_contest_title two_line_block = Inr (Some title)"
    and "title = rstrip (splitlines two_line_block ! (0 + 1)) @ '' '' @
                   rstrip (lstrip (splitlines two_line_block ! (0 + 2)))"
    using grab_contest_title_two_lines [OF 1 2 3 4 5] by blast
  then have 7: "grab_contest_title two_line_block = Inr (Some ''STATE REPRESENTATIVE 62ND DISTRICT'')"
    using r by simp
  show ?thesis
    by (intro conjI) (rule 4, rule 6, rule 7)
qed

text \<open>
  C8, as claimed, fails: a title line that starts with white space keeps it, and a
  second line that is blank leaves the space that joins the two at the end.
\<close>

theorem grab_contest_title_whitespace_counterexample:
  "grab_contest_title
     ''CANVASS   VOTES\<newline>   U.S. SENATE\<newline>FULL TERM\<newline>(Vote for not more than 1)\<newline>''
     = Inr (Some ''   U.S. SENATE FULL TERM'')
   \<and> grab_contest_title ''CANVASS   VOTES\<newline>U.S. SENATE\<newline>\<newline>01 = Alice A\<newline>''
     = Inr (Some ''U.S. SENATE '')"
  by code_simp

section \<open>The header of a roster with a gap\<close>

text \<open>
  \<open>grab_candidates\<close> stores each index once, so the length of the roster is the number
  of its indices. If every index from 1 to that length were present, the indices would
  be exactly those, and none up to the largest could be missing.
\<close>

lemma candidates_loop_distinct:
  "distinct (map fst candidates) \<Longrightarrow> candidates_loop candidates found = Inr roster
     \<Longrightarrow> distinct (map fst roster)"
proof (induction found arbitrary: candidates)
  case Nil
  then show ?case by simp
next
  case (Cons candidate rest)
  from Cons.prems(2) obtain first more idx name tail
    where "split_sep '' = '' (rstrip candidate) = first # more"
      and "py_int first = Some idx" and "more = name # tail"
      and rec: "candidates_loop (AList.update idx name candidates) rest = Inr roster"
    by (auto split: list.splits option.splits)
  moreover have "distinct (map fst (AList.update idx name candidates))"
    using Cons.prems(1) by (rule distinct_update)
  ultimately show ?case using Cons.IH by blast
qed

lemma grab_candidates_distinct: "grab_candidates contest = Inr roster \<Longrightarrow> distinct (map fst roster)"
  unfolding grab_candidates_def using candidates_loop_distinct [of "[]"] by simp

lemma max_index_mem: "max_index c = 0 \<or> max_index c \<in> fst ` set c"
  unfolding max_index_def by (induction c) (auto simp: max_def)

lemma header_loop_missing:
  "\<exists>k \<in> set ks. map_of c (int k) = None \<Longrightarrow>
     \<exists>j \<in> set ks. map_of c (int j) = None \<and> header_loop c ks h = Inl (KeyError (int j))"
proof (induction ks arbitrary: h)
  case Nil
  then show ?case by simp
next
  case (Cons k ks)
  show ?case
  proof (cases "map_of c (int k)")
    case None
    then show ?thesis by auto
  next
    case (Some name)
    then have "\<exists>k \<in> set ks. map_of c (int k) = None" using Cons.prems by auto
    then obtain j where "j \<in> set ks" and "map_of c (int j) = None"
      and "header_loop c ks (h @ [name]) = Inl (KeyError (int j))"
      using Cons.IH [of "h @ [name]"] by blast
    then show ?thesis using Some by auto
  qed
qed

lemma gap_within_length:
  assumes d: "distinct (map fst c)" and g: "has_gap c"
  shows "\<exists>k \<in> set [1 ..< length c + 1]. map_of c (int k) = None"
proof (rule ccontr)
  assume "\<not> (\<exists>k \<in> set [1 ..< length c + 1]. map_of c (int k) = None)"
  then have all: "\<forall>k \<in> {1 ..< length c + 1}. int k \<in> fst ` set c"
    by (auto simp: map_of_eq_None_iff)
  have card: "card (fst ` set c) = length c"
    using d by (metis distinct_card length_map set_map)
  have "int ` {1 ..< length c + 1} \<subseteq> fst ` set c" using all by auto
  moreover have "card (int ` {1 ..< length c + 1}) = length c"
    by (simp add: card_image)
  ultimately have eq: "int ` {1 ..< length c + 1} = fst ` set c"
    using card by (intro card_subset_eq) auto
  from g obtain k where k: "1 \<le> k" "k \<le> max_index c" "map_of c k = None"
    by (auto simp: has_gap_def)
  then have "max_index c \<noteq> 0" by simp
  then have "max_index c \<in> int ` {1 ..< length c + 1}" using max_index_mem [of c] eq by simp
  then have "max_index c \<le> int (length c)" by auto
  then have "k \<in> int ` {1 ..< length c + 1}"
    using k(1,2) by (intro image_eqI [of _ _ "nat k"]) auto
  then have "k \<in> fst ` set c" using eq by simp
  then show False using k(3) by (simp add: map_of_eq_None_iff)
qed

lemma build_header_gap:
  assumes "distinct (map fst c)" and "has_gap c"
  shows "\<exists>j. 1 \<le> j \<and> j \<le> int (length c) \<and> map_of c j = None \<and> build_header c = Inl (KeyError j)"
proof -
  obtain j where "j \<in> set [1 ..< length c + 1]" and "map_of c (int j) = None"
    and "build_header c = Inl (KeyError (int j))"
    using header_loop_missing [OF gap_within_length [OF assms]] unfolding build_header_def by blast
  then show ?thesis by (intro exI [of _ "int j"]) auto
qed

text \<open>
  C10. When the roster that \<open>grab_candidates\<close> returns for a block has a gap, building
  the header raises \<open>KeyError\<close> at a missing index between 1 and the length of the
  roster. \<open>gen_election_table\<close> on that block never returns a table or writes a file,
  and when the title and the precinct rows of the block are read without error, the
  error it raises is that \<open>KeyError\<close>.
\<close>

theorem header_gap_is_key_error:
  assumes "grab_candidates contest = Inr candidates" and "has_gap candidates"
  shows "\<exists>j. 1 \<le> j \<and> j \<le> int (length candidates) \<and> map_of candidates j = None
              \<and> build_header candidates = Inl (KeyError j)
              \<and> (\<forall>canvass contest_number export_filepath.
                    item (read_canvass_from_text canvass) contest_number = Inr contest
                    \<longrightarrow> (\<forall>result. gen_election_table canvass contest_number export_filepath
                                      \<noteq> Some (Inr result))
                        \<and> (contest_number < int (length (read_canvass_from_text canvass))
                             \<and> (\<exists>title. grab_contest_title contest = Inr title)
                             \<and> (\<exists>rows. grab_precincts contest = Some (Inr rows))
                           \<longrightarrow> gen_election_table canvass contest_number export_filepath
                                  = Some (Inl (KeyError j))))"
proof -
  obtain j where j: "1 \<le> j" "j \<le> int (length candidates)" "map_of candidates j = None"
    and b: "build_header candidates = Inl (KeyError j)"
    using build_header_gap [OF grab_candidates_distinct [OF assms(1)] assms(2)] by blast
  have "gen_election_table canvass n e \<noteq> Some (Inr result)"
    if "item (read_canvass_from_text canvass) n = Inr contest" for canvass n e result
    using that assms(1) b
    by (auto simp: gen_election_table_def Let_def split: sum.splits option.splits)
  moreover have "gen_election_table canvass n e = Some (Inl (KeyError j))"
    if "item (read_canvass_from_text canvass) n = Inr contest"
      and "n < int (length (read_canvass_from_text canvass))"
      and "\<exists>title. grab_contest_title contest = Inr title"
      and "\<exists>rows. grab_precincts contest = Some (Inr rows)" for canvass n e
    using that assms(1) b
    by (auto simp: gen_election_table_def Let_def split: sum.splits option.splits)
  ultimately show ?thesis using j b by blast
qed

theorem header_gap_is_key_error_witness:
  "grab_candidates (read_canvass_from_text gap_report ! 1)
     = Inr [(1, ''Alice A''), (3, ''Carol C'')]
   \<and> has_gap [(1, ''Alice A''), (3, ''Carol C'')]
   \<and> build_header [(1, ''Alice A''), (3, ''Carol C'')] = Inl (KeyError 2)
   \<and> gen_election_table gap_report 1 None = Some (Inl (KeyError 2))"
proof -
  define contest where "contest = read_canvass_from_text gap_report ! 1"
  have 1: "grab_candidates contest = Inr [(1, ''Alice A''), (3, ''Carol C'')]"
    unfolding contest_def by code_simp
  have 2: "has_gap [(1, ''Alice A''), (3, ''Carol C'')]"
    by code_simp
  have 3: "build_header [(1, ''Alice A''), (3, ''Carol C'')] = Inl (KeyError 2)"
    by code_simp
  have 4: "item (read_canvass_from_text gap_report) 1 = Inr contest"
    unfolding contest_def by code_simp
  have 5: "(1::int) < int (length (read_canvass_from_text gap_report))"
    by code_simp
  have 6: "\<exists>title. grab_contest_title contest = Inr title"
  proof -
    have "grab_contest_title contest = Inr (Some ''MAYOR'')" unfolding contest_def by code_simp
    then show ?thesis by blast
  qed
  have 7: "\<exists>rows. grab_precincts contest = Some (Inr rows)"
  proof -
    have "grab_precincts contest
            = Some (Inr [[CStr ''0001'', CNone, CStr ''Precinct One'', CInt 10, CInt 20]])"
      unfolding contest_def by code_simp
    then show ?thesis by blast
  qed
  obtain j where "build_header [(1, ''Alice A''), (3, ''Carol C'')] = Inl (KeyError j)"
    and "\<forall>canvass contest_number export_filepath.
           item (read_canvass_from_text canvass) contest_number = Inr contest
           \<longrightarrow> (\<forall>result. gen_election_table canvass contest_number export_filepath
                             \<noteq> Some (Inr result))
               \<and> (contest_number < int (length (read_canvass_from_text canvass))
                    \<and> (\<exists>title. grab_contest_title contest = Inr title)
                    \<and> (\<exists>rows. grab_precincts contest = Some (Inr rows))
                  \<longrightarrow> gen_election_table canvass contest_number export_filepath
                         = Some (Inl (KeyError j)))"
    using header_gap_is_key_error [OF 1 2] by blast
  then have "j = 2" and "gen_election_table gap_report 1 None = Some (Inl (KeyError j))"
    using 3 4 5 6 7 by auto
  then have 8: "gen_election_table gap_report 1 None = Some (Inl (KeyError 2))" by simp
  show ?thesis
    using 1 2 3 8 unfolding contest_def by (intro conjI)
qed

section \<open>Parsing the precinct rows\<close>

text \<open>
  The only error the row parser raises is the \<open>ValueError\<close> of \<open>int\<close>:
  \<open>re.split\<close> always returns a first field. A row that is parsed has one vote count
  for each field after the first.
\<close>

lemma votes_loop_error: "votes_loop fields = Inl e \<Longrightarrow> e = ValueError"
  by (induction fields arbitrary: e) (auto split: option.splits sum.splits)

lemma votes_loop_malformed:
  "\<exists>field \<in> set fields. py_int field = None \<Longrightarrow> votes_loop fields = Inl ValueError"
proof (induction fields)
  case Nil
  then show ?case by simp
next
  case (Cons f fs)
  show ?case
  proof (cases "py_int f")
    case None
    then show ?thesis by simp
  next
    case (Some v)
    then have "votes_loop fs = Inl ValueError" using Cons by auto
    then show ?thesis using Some by simp
  qed
qed

lemma votes_loop_length: "votes_loop fields = Inr votes \<Longrightarrow> length votes = length fields"
  by (induction fields arbitrary: votes) (auto split: option.splits sum.splits)

lemma re_split_not_Nil: "re_split p s \<noteq> []"
  unfolding re_split_def by (rule re_split_from_not_Nil)

lemma precinct_result_error: "precinct_result line = Inl e \<Longrightarrow> e = ValueError"
  using re_split_not_Nil [of rx_spaces line]
  by (auto simp: precinct_result_def Let_def split: list.splits sum.splits dest: votes_loop_error)

lemma precinct_result_malformed:
  assumes "field \<in> set (tl (re_split rx_spaces line))" and "py_int field = None"
  shows "precinct_result line = Inl ValueError"
proof -
  obtain first rest where s: "re_split rx_spaces line = first # rest"
    using re_split_not_Nil [of rx_spaces line] by (cases "re_split rx_spaces line") auto
  then have "\<exists>f \<in> set rest. py_int f = None" using assms by auto
  then have "votes_loop rest = Inl ValueError" by (rule votes_loop_malformed)
  then show ?thesis using s by (simp add: precinct_result_def)
qed

lemma precinct_result_length:
  assumes "precinct_result line = Inr row"
  shows "length (drop 3 row) = length (tl (re_split rx_spaces line))"
proof -
  obtain first rest where s: "re_split rx_spaces line = first # rest"
    using re_split_not_Nil [of rx_spaces line] by (cases "re_split rx_spaces line") auto
  then obtain votes where v: "votes_loop rest = Inr votes"
    using assms by (cases "votes_loop rest") (auto simp: precinct_result_def)
  then have "drop 3 row = map CInt votes"
    using assms s by (auto simp: precinct_result_def Let_def)
  then show ?thesis using votes_loop_length [OF v] s by simp
qed

lemma precincts_loop_error: "precincts_loop region = Inl e \<Longrightarrow> e = ValueError"
  by (induction region arbitrary: e) (auto split: sum.splits dest: precinct_result_error)

lemma precincts_loop_malformed:
  assumes "line \<in> set region" and "field \<in> set (tl (re_split rx_spaces line))"
    and "py_int field = None"
  shows "precincts_loop region = Inl ValueError"
  using assms(1)
proof (induction region)
  case Nil
  then show ?case by simp
next
  case (Cons l ls)
  show ?case
  proof (cases "precinct_result l")
    case (Inl e)
    then show ?thesis using precinct_result_error [OF Inl] by simp
  next
    case (Inr row)
    then have "l \<noteq> line" using precinct_result_malformed [OF assms(2,3)] by auto
    then have "precincts_loop ls = Inl ValueError" using Cons by auto
    then show ?thesis using Inr by simp
  qed
qed

lemma precincts_loop_lengths:
  "precincts_loop region = Inr rows \<Longrightarrow>
     map (\<lambda>row. length (drop 3 row)) rows
       = map (\<lambda>line. length (tl (re_split rx_spaces line))) region"
proof (induction region arbitrary: rows)
  case Nil
  then show ?case by simp
next
  case (Cons l ls)
  from Cons.prems obtain row rest where r: "precinct_result l = Inr row"
    and rs: "precincts_loop ls = Inr rest" and rows: "rows = row # rest"
    by (auto split: sum.splits)
  show ?case using precinct_result_length [OF r] Cons.IH [OF rs] rows by simp
qed

text \<open>
  C6. When a line of the precinct region has a field after the first that \<open>int\<close>
  rejects, \<open>grab_precincts\<close> raises \<open>ValueError\<close> and returns no rows, and every
  call of \<open>gen_election_table\<close> on that block ends in an error.
\<close>

theorem malformed_vote_field_raises:
  assumes "verify_precincts contest = Some (Inr region)"
    and "line \<in> set region"
    and "field \<in> set (tl (re_split rx_spaces line))"
    and "py_int field = None"
  shows "grab_precincts contest = Some (Inl ValueError)
         \<and> (\<forall>canvass contest_number export_filepath.
               item (read_canvass_from_text canvass) contest_number = Inr contest
               \<longrightarrow> (\<exists>e. gen_election_table canvass contest_number export_filepath
                            = Some (Inl e)))"
proof
  show g: "grab_precincts contest = Some (Inl ValueError)"
    using assms(1) precincts_loop_malformed [OF assms(2,3,4)] by (simp add: grab_precincts_def)
  show "\<forall>canvass contest_number export_filepath.
          item (read_canvass_from_text canvass) contest_number = Inr contest
          \<longrightarrow> (\<exists>e. gen_election_table canvass contest_number export_filepath = Some (Inl e))"
    using g by (auto simp: gen_election_table_def Let_def split: sum.splits)
qed

theorem malformed_vote_field_raises_witness:
  "verify_precincts (read_canvass_from_text malformed_report ! 1)
     = Some (Inr [''0001 Precinct One     10   20'', ''0002 Precinct Two     1O   7''])
   \<and> re_split rx_spaces ''0002 Precinct Two     1O   7'' = [''0002 Precinct Two'', ''1O'', ''7'']
   \<and> py_int ''1O'' = None
   \<and> grab_precincts (read_canvass_from_text malformed_report ! 1) = Some (Inl ValueError)
   \<and> gen_election_table malformed_report 1 (Some ''mayor.csv'') = Some (Inl ValueError)"
proof -
  define contest where "contest = read_canvass_from_text malformed_report ! 1"
  have 1: "verify_precincts contest
             = Some (Inr [''0001 Precinct One     10   20'', ''0002 Precinct Two     1O   7''])"
    unfolding contest_def by code_simp
  have 2: "''0002 Precinct Two     1O   7''
             \<in> set [''0001 Precinct One     10   20'', ''0002 Precinct Two     1O   7'']"
    by simp
  have s: "re_split rx_spaces ''0002 Precinct Two     1O   7'' = [''0002 Precinct Two'', ''1O'', ''7'']"
    by code_simp
  have 3: "''1O'' \<in> set (tl (re_split rx_spaces ''0002 Precinct Two     1O   7''))"
    unfolding s by simp
  have 4: "py_int ''1O'' = None" by code_simp
  have 5: "item (read_canvass_from_text malformed_report) 1 = Inr contest"
    unfolding contest_def by code_simp
  have g: "grab_precincts contest = Some (Inl ValueError)"
    and "\<exists>e. gen_election_table malformed_report 1 (Some ''mayor.csv'') = Some (Inl e)"
    using malformed_vote_field_raises [OF 1 2 3 4] 5 by blast+
  have 6: "gen_election_table malformed_report 1 (Some ''mayor.csv'') = Some (Inl ValueError)"
    by code_simp
  show ?thesis
    using 1 s 4 g 6 unfolding contest_def by (intro conjI)
qed

text \<open>
  C5, as amended. Every row that \<open>grab_precincts\<close> returns has as many vote counts,
  after its three leading cells, as its line has fields after the first. The roster is
  not consulted.
\<close>

theorem vote_count_is_field_count:
  assumes "grab_precincts contest = Some (Inr rows)"
  shows "\<exists>region. verify_precincts contest = Some (Inr region)
           \<and> map (\<lambda>row. length (drop 3 row)) rows
               = map (\<lambda>line. length (tl (re_split rx_spaces line))) region"
proof -
  obtain region where v: "verify_precincts contest = Some (Inr region)"
    and p: "precincts_loop region = Inr rows"
    using assms by (auto simp: grab_precincts_def split: option.splits sum.splits)
  then show ?thesis using precincts_loop_lengths [OF p] by blast
qed

theorem vote_count_is_field_count_witness:
  "grab_precincts uneven_block
     = Some (Inr [[CStr ''0001'', CNone, CStr ''Precinct One'', CInt 10, CInt 20, CInt 30],
                  [CStr ''0002'', CNone, CStr ''Precinct Two'', CInt 5]])
   \<and> verify_precincts uneven_block
       = Some (Inr [''0001 Precinct One     10   20   30'', ''0002 Precinct Two     5''])
   \<and> map (\<lambda>line. length (tl (re_split rx_spaces line)))
         [''0001 Precinct One     10   20   30'', ''0002 Precinct Two     5''] = [3, 1]"
proof -
  have 1: "grab_precincts uneven_block
     = Some (Inr [[CStr ''0001'', CNone, CStr ''Precinct One'', CInt 10, CInt 20, CInt 30],
                  [CStr ''0002'', CNone, CStr ''Precinct Two'', CInt 5]])"
    by code_simp
  have 2: "verify_precincts uneven_block
       = Some (Inr [''0001 Precinct One     10   20   30'', ''0002 Precinct Two     5''])"
    by code_simp
  have 3: "map (\<lambda>line. length (tl (re_split rx_spaces line)))
         [''0001 Precinct One     10   20   30'', ''0002 Precinct Two     5''] = [3, 1]"
    using vote_count_is_field_count [OF 1] 2 by simp
  show ?thesis using 1 2 3 by (intro conjI)
qed

text \<open>
  C5, as claimed, fails: the block below has a roster of two candidates, and its rows
  have three vote counts and one.
\<close>

theorem vote_count_roster_counterexample:
  "grab_candidates uneven_block = Inr [(1, ''Alice A''), (2, ''Bob B'')]
   \<and> grab_precincts uneven_block
       = Some (Inr [[CStr ''0001'', CNone, CStr ''Precinct One'', CInt 10, CInt 20, CInt 30],
                    [CStr ''0002'', CNone, CStr ''Precinct Two'', CInt 5]])"
  by code_simp

section \<open>The synthetic report\<close>

text \<open>
  The second row of section 8 separates its vote counts by single spaces, so the split
  on runs of two or more white-space characters leaves them in one field, which \<open>int\<close>
  rejects. Whatever else a block holds, a region with this row in it is not parsed.
\<close>

lemma section_8_row_never_parses:
  "''0002 0005 Precinct Two   50 40 0 1'' \<in> set region \<Longrightarrow> precincts_loop region = Inl ValueError"
proof -
  have s: "re_split rx_spaces ''0002 0005 Precinct Two   50 40 0 1''
             = [''0002 0005 Precinct Two'', ''50 40 0 1'']"
    by code_simp
  have f: "''50 40 0 1'' \<in> set (tl (re_split rx_spaces ''0002 0005 Precinct Two   50 40 0 1''))"
    unfolding s by simp
  have i: "py_int ''50 40 0 1'' = None" by code_simp
  assume "''0002 0005 Precinct Two   50 40 0 1'' \<in> set region"
  then show ?thesis using f i by (rule precincts_loop_malformed)
qed

text \<open>
  C1, as amended. For the report with its rows in the layout the parser reads,
  \<open>gen_election_table\<close> with an export path writes the four rows of \<open>senate_table\<close>,
  and the second data row is the one of the claim. The second row as section 8 writes
  it splits into two fields and raises \<open>ValueError\<close>, and the first row as section 8
  writes it, with four spaces after the identifier, is no precinct row for
  \<open>verify_precincts\<close>.
\<close>

theorem senate_export_rows:
  "gen_election_table senate_report_spaced 1 (Some ''senate.csv'')
     = Some (Inr (Exported ''senate.csv'' senate_table))
   \<and> senate_table ! 3
       = [CStr ''0002'', CStr ''0005'', CStr ''Precinct Two'', CInt 50, CInt 40, CInt 0, CInt 1]
   \<and> re_split rx_spaces ''0002 0005 Precinct Two   50 40 0 1''
       = [''0002 0005 Precinct Two'', ''50 40 0 1'']
   \<and> precinct_result ''0002 0005 Precinct Two   50 40 0 1'' = Inl ValueError
   \<and> rx_precinct_row ''0001    Precinct One     100   90   1   0'' = None"
  by code_simp

text \<open>
  C1, as claimed, fails: on the report with the rows of section 8 the precinct region
  starts at the second row, and the call raises \<open>ValueError\<close> and writes no file.
\<close>

theorem senate_export_counterexample:
  "verify_precincts (read_canvass_from_text senate_report ! 1)
     = Some (Inr [''0002 0005 Precinct Two   50 40 0 1''])
   \<and> gen_election_table senate_report 1 (Some ''senate.csv'') = Some (Inl ValueError)"
  by code_simp

section \<open>The contest number\<close>

text \<open>
  C7, as amended. A contest number that is at least the number of blocks fails the
  assertion. The assertion has no lower bound: a negative number down to minus the
  number of blocks selects a block counted from the end, as Python indexes a list, and
  a number below that raises \<open>IndexError\<close>.
\<close>

theorem contest_number_range:
  "(int (length (read_canvass_from_text canvass)) \<le> contest_number
      \<longrightarrow> gen_election_table canvass contest_number export_filepath = Some (Inl AssertionError))
   \<and> (contest_number < 0 \<and> - int (length (read_canvass_from_text canvass)) \<le> contest_number
      \<longrightarrow> gen_election_table canvass contest_number export_filepath
            = gen_election_table canvass
                (contest_number + int (length (read_canvass_from_text canvass))) export_filepath)
   \<and> (contest_number < - int (length (read_canvass_from_text canvass))
      \<longrightarrow> gen_election_table canvass contest_number export_filepath = Some (Inl IndexError))"
proof (intro conjI impI)
  assume "int (length (read_canvass_from_text canvass)) \<le> contest_number"
  then show "gen_election_table canvass contest_number export_filepath = Some (Inl AssertionError)"
    by (simp add: gen_election_table_def Let_def)
next
  assume h: "contest_number < 0 \<and> - int (length (read_canvass_from_text canvass)) \<le> contest_number"
  define n where "n = int (length (read_canvass_from_text canvass))"
  have "item (read_canvass_from_text canvass) contest_number
          = item (read_canvass_from_text canvass) (contest_number + n)"
    using h by (simp add: item_def n_def add.commute)
  moreover have "contest_number < n" and "contest_number + n < n" using h by (auto simp: n_def)
  ultimately show "gen_election_table canvass contest_number export_filepath
            = gen_election_table canvass
                (contest_number + int (length (read_canvass_from_text canvass))) export_filepath"
    unfolding n_def by (simp add: gen_election_table_def Let_def)
next
  assume h: "contest_number < - int (length (read_canvass_from_text canvass))"
  then have "item (read_canvass_from_text canvass) contest_number = Inl IndexError"
    by (simp add: item_def)
  moreover have "contest_number < int (length (read_canvass_from_text canvass))" using h by simp
  ultimately show "gen_election_table canvass contest_number export_filepath = Some (Inl IndexError)"
    by (simp add: gen_election_table_def Let_def)
qed

theorem contest_number_range_witness:
  "length (read_canvass_from_text senate_report_spaced) = 2
   \<and> gen_election_table senate_report_spaced 2 None = Some (Inl AssertionError)
   \<and> gen_election_table senate_report_spaced (- 1) None
       = gen_election_table senate_report_spaced 1 None
   \<and> gen_election_table senate_report_spaced (- 3) None = Some (Inl IndexError)"
proof -
  have l: "length (read_canvass_from_text senate_report_spaced) = 2" by code_simp
  show ?thesis
    using contest_number_range [of senate_report_spaced 2 None]
      contest_number_range [of senate_report_spaced "- 1" None]
      contest_number_range [of senate_report_spaced "- 3" None]
    by (simp add: l)
qed

text \<open>
  C7, as claimed, fails: the contest number \<open>-1\<close> is no 0-based position, and the call
  returns the table of the last block.
\<close>

theorem negative_contest_number_counterexample:
  "gen_election_table senate_report_spaced (- 1) None = Some (Inr (Returned senate_table))"
  by code_simp

section \<open>The index of contests with repeated titles\<close>

text \<open>
  One round of the loop of \<open>display_contests\<close> stores the contest number under the
  title when the title is new, and under the title followed by the number when it is
  not. A key keeps its entry while no later round stores under it, and stays absent
  while no round does.
\<close>

lemma titles_loop_fresh:
  "grab_contest_title (contests ! k) = Inr ct \<Longrightarrow> d ct = None \<Longrightarrow>
     titles_loop contests (k # ks) d = titles_loop contests ks (d(ct \<mapsto> int k))"
  by simp

lemma titles_loop_rekey:
  "grab_contest_title (contests ! k) = Inr (Some t) \<Longrightarrow> d (Some t) \<noteq> None \<Longrightarrow>
     titles_loop contests (k # ks) d
       = titles_loop contests ks (d(Some (t @ str_int (int k)) \<mapsto> int k))"
  by auto

lemma titles_loop_returns:
  assumes "titles_loop contests (k # ks) d = Inr d'"
  obtains ct where "grab_contest_title (contests ! k) = Inr ct" and "d ct = None"
  | t where "grab_contest_title (contests ! k) = Inr (Some t)" and "d (Some t) \<noteq> None"
proof (cases "grab_contest_title (contests ! k)")
  case (Inl e)
  then show ?thesis using assms by simp
next
  case (Inr ct)
  show ?thesis
  proof (cases "d ct = None")
    case True
    then show ?thesis using Inr that(1) by blast
  next
    case False
    then obtain t where "ct = Some t" using assms Inr by (cases ct) auto
    then show ?thesis using Inr False that(2) by blast
  qed
qed

lemma titles_loop_append:
  "titles_loop contests (ks @ ks') d = Inr d' \<Longrightarrow>
     \<exists>d1. titles_loop contests ks d = Inr d1 \<and> titles_loop contests ks' d1 = Inr d'"
proof (induction ks arbitrary: d)
  case Nil
  then show ?case by simp
next
  case (Cons k ks)
  have p: "titles_loop contests (k # (ks @ ks')) d = Inr d'" using Cons.prems by simp
  show ?case
  proof (cases rule: titles_loop_returns [OF p])
    case (1 ct)
    have "titles_loop contests (ks @ ks') (d(ct \<mapsto> int k)) = Inr d'"
      using p unfolding titles_loop_fresh [where d = d, OF 1] .
    then obtain d1 where "titles_loop contests ks (d(ct \<mapsto> int k)) = Inr d1"
      and "titles_loop contests ks' d1 = Inr d'"
      using Cons.IH by blast
    then show ?thesis unfolding titles_loop_fresh [where d = d, OF 1] by blast
  next
    case (2 t)
    have "titles_loop contests (ks @ ks') (d(Some (t @ str_int (int k)) \<mapsto> int k)) = Inr d'"
      using p unfolding titles_loop_rekey [where d = d, OF 2] .
    then obtain d1
      where "titles_loop contests ks (d(Some (t @ str_int (int k)) \<mapsto> int k)) = Inr d1"
        and "titles_loop contests ks' d1 = Inr d'"
      using Cons.IH by blast
    then show ?thesis unfolding titles_loop_rekey [where d = d, OF 2] by blast
  qed
qed

lemma titles_loop_keeps:
  assumes "titles_loop contests ks d = Inr d'" and "d K = Some v"
    and "\<forall>k \<in> set ks. \<forall>t. grab_contest_title (contests ! k) = Inr (Some t)
           \<longrightarrow> Some (t @ str_int (int k)) \<noteq> K"
  shows "d' K = Some v"
  using assms
proof (induction ks arbitrary: d)
  case Nil
  then show ?case by simp
next
  case (Cons k ks)
  have rest: "\<forall>k \<in> set ks. \<forall>t. grab_contest_title (contests ! k) = Inr (Some t)
           \<longrightarrow> Some (t @ str_int (int k)) \<noteq> K"
    using Cons.prems(3) by simp
  show ?case
  proof (cases rule: titles_loop_returns [OF Cons.prems(1)])
    case (1 ct)
    have "ct \<noteq> K" using 1(2) Cons.prems(2) by auto
    then have "(d(ct \<mapsto> int k)) K = Some v" using Cons.prems(2) by simp
    moreover have "titles_loop contests ks (d(ct \<mapsto> int k)) = Inr d'"
      using Cons.prems(1) unfolding titles_loop_fresh [where d = d, OF 1] .
    ultimately show ?thesis using Cons.IH rest by blast
  next
    case (2 t)
    have "Some (t @ str_int (int k)) \<noteq> K" using Cons.prems(3) 2(1) by simp
    then have "(d(Some (t @ str_int (int k)) \<mapsto> int k)) K = Some v"
      using Cons.prems(2) by simp
    moreover have "titles_loop contests ks (d(Some (t @ str_int (int k)) \<mapsto> int k)) = Inr d'"
      using Cons.prems(1) unfolding titles_loop_rekey [where d = d, OF 2] .
    ultimately show ?thesis using Cons.IH rest by blast
  qed
qed

lemma titles_loop_absent:
  assumes "titles_loop contests ks d = Inr d'" and "d K = None"
    and "\<forall>k \<in> set ks. grab_contest_title (contests ! k) \<noteq> Inr K"
    and "\<forall>k \<in> set ks. \<forall>t. grab_contest_title (contests ! k) = Inr (Some t)
           \<longrightarrow> Some (t @ str_int (int k)) \<noteq> K"
  shows "d' K = None"
  using assms
proof (induction ks arbitrary: d)
  case Nil
  then show ?case by simp
next
  case (Cons k ks)
  have r3: "\<forall>k \<in> set ks. grab_contest_title (contests ! k) \<noteq> Inr K"
    using Cons.prems(3) by simp
  have r4: "\<forall>k \<in> set ks. \<forall>t. grab_contest_title (contests ! k) = Inr (Some t)
           \<longrightarrow> Some (t @ str_int (int k)) \<noteq> K"
    using Cons.prems(4) by simp
  show ?case
  proof (cases rule: titles_loop_returns [OF Cons.prems(1)])
    case (1 ct)
    have "ct \<noteq> K" using 1(1) Cons.prems(3) by auto
    then have "(d(ct \<mapsto> int k)) K = None" using Cons.prems(2) by simp
    moreover have "titles_loop contests ks (d(ct \<mapsto> int k)) = Inr d'"
      using Cons.prems(1) unfolding titles_loop_fresh [where d = d, OF 1] .
    ultimately show ?thesis using Cons.IH r3 r4 by blast
  next
    case (2 t)
    have "Some (t @ str_int (int k)) \<noteq> K" using Cons.prems(4) 2(1) by simp
    then have "(d(Some (t @ str_int (int k)) \<mapsto> int k)) K = None"
      using Cons.prems(2) by simp
    moreover have "titles_loop contests ks (d(Some (t @ str_int (int k)) \<mapsto> int k)) = Inr d'"
      using Cons.prems(1) unfolding titles_loop_rekey [where d = d, OF 2] .
    ultimately show ?thesis using Cons.IH r3 r4 by blast
  qed
qed

text \<open>
  Where the index is right. Let \<open>display_contests\<close> return, let \<open>i\<close> be the first
  position from 1 whose block has the title \<open>T\<close>, and let a later block \<open>j\<close> have it
  too. If no block has a title that, followed by its own position, reads \<open>T\<close>, or reads
  \<open>T\<close> followed by \<open>j\<close> at another position than \<open>j\<close>, then the dictionary maps
  \<open>T\<close> to \<open>i\<close> and \<open>T\<close> followed by \<open>j\<close> to \<open>j\<close>. The condition is sufficient,
  not necessary: it rules out every key that a second branch could store over another,
  whether or not the loop takes that branch.
\<close>

lemma display_contests_without_collision:
  assumes ret: "display_contests canvass = Inr titles_dict"
    and i: "1 \<le> i" and ij: "i < j" and j: "j < length (read_canvass_from_text canvass)"
    and ti: "grab_contest_title (read_canvass_from_text canvass ! i) = Inr (Some T)"
    and tj: "grab_contest_title (read_canvass_from_text canvass ! j) = Inr (Some T)"
    and first: "\<forall>h. 1 \<le> h \<and> h < i
                  \<longrightarrow> grab_contest_title (read_canvass_from_text canvass ! h) \<noteq> Inr (Some T)"
    and apart: "\<forall>k t. 1 \<le> k \<and> k < length (read_canvass_from_text canvass)
                    \<and> grab_contest_title (read_canvass_from_text canvass ! k) = Inr (Some t)
                  \<longrightarrow> t @ str_int (int k) \<noteq> T
                      \<and> (k \<noteq> j \<longrightarrow> t @ str_int (int k) \<noteq> T @ str_int (int j))"
  shows "titles_dict (Some T) = Some (int i)
         \<and> titles_dict (Some (T @ str_int (int j))) = Some (int j)"
proof -
  define cs where "cs = read_canvass_from_text canvass"
  define n where "n = length cs"
  have split: "[1 ..< n] = [1 ..< i] @ i # [Suc i ..< j] @ j # [Suc j ..< n]"
  proof -
    have "[1 ..< n] = [1 ..< i] @ [i ..< n]"
      using i ij j upt_add_eq_append [of 1 i "n - i"] by (simp add: n_def cs_def)
    also have "[i ..< n] = i # [Suc i ..< n]"
      using ij j by (simp add: upt_conv_Cons n_def cs_def)
    also have "[Suc i ..< n] = [Suc i ..< j] @ [j ..< n]"
      using ij j upt_add_eq_append [of "Suc i" j "n - j"] by (simp add: n_def cs_def)
    also have "[j ..< n] = j # [Suc j ..< n]"
      using j by (simp add: upt_conv_Cons n_def cs_def)
    finally show ?thesis by simp
  qed
  have run: "titles_loop cs ([1 ..< i] @ i # [Suc i ..< j] @ j # [Suc j ..< n]) Map.empty
               = Inr titles_dict"
    using ret split by (simp add: display_contests_def Let_def cs_def n_def)
  have nokey: "\<forall>k \<in> set ks. \<forall>t. grab_contest_title (cs ! k) = Inr (Some t)
                 \<longrightarrow> Some (t @ str_int (int k)) \<noteq> Some T"
    if "set ks \<subseteq> {1 ..< n}" for ks
  proof (intro ballI allI impI)
    fix k t assume k: "k \<in> set ks" and t: "grab_contest_title (cs ! k) = Inr (Some t)"
    then have "1 \<le> k \<and> k < n" using that by auto
    then have "t @ str_int (int k) \<noteq> T" using apart t by (simp add: cs_def n_def)
    then show "Some (t @ str_int (int k)) \<noteq> Some T" by simp
  qed
  have nokey_j: "\<forall>k \<in> set ks. \<forall>t. grab_contest_title (cs ! k) = Inr (Some t)
                 \<longrightarrow> Some (t @ str_int (int k)) \<noteq> Some (T @ str_int (int j))"
    if "set ks \<subseteq> {Suc j ..< n}" for ks
  proof (intro ballI allI impI)
    fix k t assume k: "k \<in> set ks" and t: "grab_contest_title (cs ! k) = Inr (Some t)"
    then have "1 \<le> k \<and> k < n \<and> k \<noteq> j" using that by auto
    then have "t @ str_int (int k) \<noteq> T @ str_int (int j)"
      using apart t by (simp add: cs_def n_def)
    then show "Some (t @ str_int (int k)) \<noteq> Some (T @ str_int (int j))" by simp
  qed
  obtain d1 where d1: "titles_loop cs [1 ..< i] Map.empty = Inr d1"
    and r1: "titles_loop cs (i # [Suc i ..< j] @ j # [Suc j ..< n]) d1 = Inr titles_dict"
    using titles_loop_append [OF run] by blast
  have a1: "d1 (Some T) = None"
  proof (rule titles_loop_absent [OF d1])
    show "Map.empty (Some T) = None" by simp
    show "\<forall>k \<in> set [1 ..< i]. grab_contest_title (cs ! k) \<noteq> Inr (Some T)"
      using first by (auto simp: cs_def)
    show "\<forall>k \<in> set [1 ..< i]. \<forall>t. grab_contest_title (cs ! k) = Inr (Some t)
             \<longrightarrow> Some (t @ str_int (int k)) \<noteq> Some T"
      using nokey [of "[1 ..< i]"] ij j by (auto simp: n_def cs_def)
  qed
  define d2 where "d2 = d1(Some T \<mapsto> int i)"
  have ti': "grab_contest_title (cs ! i) = Inr (Some T)" using ti by (simp add: cs_def)
  have tj': "grab_contest_title (cs ! j) = Inr (Some T)" using tj by (simp add: cs_def)
  have r2: "titles_loop cs ([Suc i ..< j] @ j # [Suc j ..< n]) d2 = Inr titles_dict"
    using r1 unfolding titles_loop_fresh [where d = d1, OF ti' a1] d2_def .
  obtain d3 where d3: "titles_loop cs [Suc i ..< j] d2 = Inr d3"
    and r3: "titles_loop cs (j # [Suc j ..< n]) d3 = Inr titles_dict"
    using titles_loop_append [OF r2] by blast
  have a3: "d3 (Some T) = Some (int i)"
  proof (rule titles_loop_keeps [OF d3])
    show "d2 (Some T) = Some (int i)" by (simp add: d2_def)
    show "\<forall>k \<in> set [Suc i ..< j]. \<forall>t. grab_contest_title (cs ! k) = Inr (Some t)
             \<longrightarrow> Some (t @ str_int (int k)) \<noteq> Some T"
      using nokey [of "[Suc i ..< j]"] i j by (auto simp: n_def cs_def)
  qed
  define d4 where "d4 = d3(Some (T @ str_int (int j)) \<mapsto> int j)"
  have n3: "d3 (Some T) \<noteq> None" using a3 by simp
  have r4: "titles_loop cs [Suc j ..< n] d4 = Inr titles_dict"
    using r3 unfolding titles_loop_rekey [where d = d3, OF tj' n3] d4_def .
  have "1 \<le> j \<and> j < length (read_canvass_from_text canvass)
          \<and> grab_contest_title (read_canvass_from_text canvass ! j) = Inr (Some T)"
    using i ij j tj by simp
  then have Tj: "T @ str_int (int j) \<noteq> T"
    using apart by blast
  have a4: "d4 (Some T) = Some (int i)" using a3 Tj by (simp add: d4_def)
  have b4: "d4 (Some (T @ str_int (int j))) = Some (int j)" by (simp add: d4_def)
  have "titles_dict (Some T) = Some (int i)"
    using titles_loop_keeps [OF r4 a4] nokey [of "[Suc j ..< n]"] i ij by auto
  moreover have "titles_dict (Some (T @ str_int (int j))) = Some (int j)"
    using titles_loop_keeps [OF r4 b4] nokey_j [of "[Suc j ..< n]"] by auto
  ultimately show ?thesis by simp
qed


lemma display_contests_without_collision_example:
  "grab_contest_title (read_canvass_from_text two_mayors_report ! 1) = Inr (Some ''CLERK'')
   \<and> grab_contest_title (read_canvass_from_text two_mayors_report ! 2) = Inr (Some ''MAYOR'')
   \<and> grab_contest_title (read_canvass_from_text two_mayors_report ! 3) = Inr (Some ''MAYOR'')
   \<and> contest_number_of two_mayors_report (Some ''MAYOR'') = Some 2
   \<and> contest_number_of two_mayors_report (Some ''MAYOR3'') = Some 3"
proof -
  have len: "length (read_canvass_from_text two_mayors_report) = 4" by code_simp
  have t1: "grab_contest_title (read_canvass_from_text two_mayors_report ! 1) = Inr (Some ''CLERK'')"
    by code_simp
  have t2: "grab_contest_title (read_canvass_from_text two_mayors_report ! 2) = Inr (Some ''MAYOR'')"
    by code_simp
  have t3: "grab_contest_title (read_canvass_from_text two_mayors_report ! 3) = Inr (Some ''MAYOR'')"
    by code_simp
  have s1: "str_int (int 1) = ''1''" by code_simp
  have s2: "str_int (int 2) = ''2''" by code_simp
  have s3: "str_int (int 3) = ''3''" by code_simp
  have "case display_contests two_mayors_report of Inl e \<Rightarrow> False | Inr d \<Rightarrow> True"
    by code_simp
  then obtain d where d: "display_contests two_mayors_report = Inr d"
    by (cases "display_contests two_mayors_report") auto
  have first: "\<forall>h. 1 \<le> h \<and> h < 2
      \<longrightarrow> grab_contest_title (read_canvass_from_text two_mayors_report ! h) \<noteq> Inr (Some ''MAYOR'')"
  proof (intro allI impI)
    fix h :: nat assume "1 \<le> h \<and> h < 2"
    then have "h = 1" by simp
    then show "grab_contest_title (read_canvass_from_text two_mayors_report ! h)
                 \<noteq> Inr (Some ''MAYOR'')"
      using t1 by simp
  qed
  have apart: "\<forall>k t. 1 \<le> k \<and> k < length (read_canvass_from_text two_mayors_report)
        \<and> grab_contest_title (read_canvass_from_text two_mayors_report ! k) = Inr (Some t)
      \<longrightarrow> t @ str_int (int k) \<noteq> ''MAYOR''
          \<and> (k \<noteq> 3 \<longrightarrow> t @ str_int (int k) \<noteq> ''MAYOR'' @ str_int (int 3))"
  proof (intro allI impI)
    fix k t
    assume h: "1 \<le> k \<and> k < length (read_canvass_from_text two_mayors_report)
        \<and> grab_contest_title (read_canvass_from_text two_mayors_report ! k) = Inr (Some t)"
    then consider "k = 1" | "k = 2" | "k = 3" using len by force
    then show "t @ str_int (int k) \<noteq> ''MAYOR''
          \<and> (k \<noteq> 3 \<longrightarrow> t @ str_int (int k) \<noteq> ''MAYOR'' @ str_int (int 3))"
    proof cases
      case 1
      then have "t = ''CLERK''" using h t1 by simp
      then show ?thesis using 1 s1 s3 by simp
    next
      case 2
      then have "t = ''MAYOR''" using h t2 by simp
      then show ?thesis using 2 s2 s3 by simp
    next
      case 3
      then have "t = ''MAYOR''" using h t3 by simp
      then show ?thesis using 3 s3 by simp
    qed
  qed
  have i: "(1::nat) \<le> 2" and ij: "(2::nat) < 3" by simp_all
  have j: "3 < length (read_canvass_from_text two_mayors_report)" using len by simp
  have "d (Some ''MAYOR'') = Some (int 2) \<and> d (Some (''MAYOR'' @ str_int (int 3))) = Some (int 3)"
    by (rule display_contests_without_collision [OF d i ij j t2 t3 first apart])
  then have "contest_number_of two_mayors_report (Some ''MAYOR'') = Some 2"
    and "contest_number_of two_mayors_report (Some ''MAYOR3'') = Some 3"
    using d s3 by (simp_all add: contest_number_of_def)
  then show ?thesis using t1 t2 t3 by (intro conjI)
qed

text \<open>The blocks of the report with the wards, and their titles.\<close>

lemma wards_report_blocks:
  "read_canvass_from_text wards_report =
     [''Canvass of votes\<newline>'',
      ''\<newline>REPORT        VOTES  PERCENT\<newline>WARD 13\<newline>(Vote for not more than 1)\<newline>01 = Alice A\<newline>'',
      ''\<newline>REPORT        VOTES  PERCENT\<newline>WARD 1\<newline>(Vote for not more than 1)\<newline>01 = Alice A\<newline>'',
      ''\<newline>REPORT        VOTES  PERCENT\<newline>WARD 1\<newline>(Vote for not more than 1)\<newline>01 = Alice A\<newline>'',
      ''\<newline>REPORT        VOTES  PERCENT\<newline>WARD 13\<newline>(Vote for not more than 1)\<newline>01 = Alice A\<newline>'']"
  by code_simp

lemma ward_13_title:
  "grab_contest_title ''\<newline>REPORT        VOTES  PERCENT\<newline>WARD 13\<newline>(Vote for not more than 1)\<newline>01 = Alice A\<newline>''
     = Inr (Some ''WARD 13'')"
  by code_simp

lemma ward_1_title:
  "grab_contest_title ''\<newline>REPORT        VOTES  PERCENT\<newline>WARD 1\<newline>(Vote for not more than 1)\<newline>01 = Alice A\<newline>''
     = Inr (Some ''WARD 1'')"
  by code_simp

text \<open>
  C9. The claim: when the blocks at the positions \<open>i < j\<close> have the same title \<open>T\<close>,
  \<open>display_contests\<close> maps \<open>T\<close> to \<open>i\<close> and \<open>T\<close> followed by \<open>j\<close> to \<open>j\<close>, and the
  entry under \<open>T\<close> is never overwritten. The first branch of the loop stores under a
  title only after testing that the title is no key yet; the second branch stores under
  the title followed by the position with no such test. On the report below the title
  \<open>WARD 13\<close> stands at the positions 1 and 4 only. Round 3 finds its title \<open>WARD 1\<close>
  taken by round 2 and stores 3 under \<open>WARD 1\<close> followed by \<open>3\<close>, which is the key of
  round 1: the dictionary maps \<open>WARD 13\<close> to 3, not to 1, and no key is left for the
  first contest. The entry for position 4, under \<open>WARD 134\<close>, is as the claim says.
\<close>

theorem display_contests_rekey_overwrites:
  "length (read_canvass_from_text wards_report) = 5
   \<and> grab_contest_title (read_canvass_from_text wards_report ! 1) = Inr (Some ''WARD 13'')
   \<and> grab_contest_title (read_canvass_from_text wards_report ! 2) = Inr (Some ''WARD 1'')
   \<and> grab_contest_title (read_canvass_from_text wards_report ! 3) = Inr (Some ''WARD 1'')
   \<and> grab_contest_title (read_canvass_from_text wards_report ! 4) = Inr (Some ''WARD 13'')
   \<and> contest_number_of wards_report (Some ''WARD 13'') = Some 3
   \<and> contest_number_of wards_report (Some ''WARD 1'') = Some 2
   \<and> contest_number_of wards_report (Some ''WARD 134'') = Some 4"
proof -
  have s3: "str_int 3 = ''3''" and s4: "str_int 4 = ''4''" by code_simp+
  have u: "[1 ..< 5] = [1, 2, 3, 4]" by code_simp
  show ?thesis
    unfolding contest_number_of_def display_contests_def wards_report_blocks Let_def
    by (simp add: u ward_13_title ward_1_title s3 s4)
qed

end
